theory Spec2Isabelle
  imports Main "HOL-Library.Word" "HOL-Library.Monad_Syntax" "HOL-Library.Multiset"
begin

section \<open>The circle permutation engine of \<^verbatim>\<open>pure_circle.cpp\<close>\<close>

text \<open>
  The program is the body of \<^verbatim>\<open>main\<close>: a static buffer \<^verbatim>\<open>Circle_D[3 * N]\<close>, a
  static counter array \<^verbatim>\<open>C_PP[N]\<close>, the 64-bit counter \<^verbatim>\<open>total_perms\<close>, and one
  \<^verbatim>\<open>while\<close> loop with three phases (mirror synchronisation, CP burst, PP carry and swap).
  The macro \<^verbatim>\<open>N\<close> (14 in the source) is a parameter of every definition. Array elements
  and index variables are C \<^verbatim>\<open>int\<close>s; they are modelled as \<^typ>\<open>int\<close> (the values the
  program stores are labels and digits between \<open>-1\<close> and \<open>N\<close>), and \<^verbatim>\<open>total_perms\<close>
  as a 64-bit word, whose addition wraps as \<^verbatim>\<open>unsigned long long\<close> does. The CPU
  affinity call, the timer and the printing around the loop do not touch this state and
  are left out.

  Every array access is checked: an index outside the array makes the whole computation
  \<open>None\<close> (in C: undefined behaviour). On top of the array bound each access asks an
  \<^emph>\<open>admission policy\<close> whether its access site may touch the index. The C program is
  the instance \<open>c_policy\<close>, which admits every index; the policy \<open>tight N\<close> admits only the
  windows the design intends, so that "this site only ever touches these indices" becomes
  "the program run under \<open>tight N\<close> never fails".
\<close>

subsection \<open>State and checked array access\<close>

datatype site =
    Loop_test     \<comment> \<open>line 85 and line 107: \<^verbatim>\<open>C_PP[0] < 1\<close>\<close>
  | Sync_src      \<comment> \<open>lines 87-88: the bytes \<^verbatim>\<open>memcpy\<close> reads from \<^verbatim>\<open>P1\<close>\<close>
  | Sync_P2       \<comment> \<open>line 87: the bytes \<^verbatim>\<open>memcpy\<close> writes to \<^verbatim>\<open>P2\<close>\<close>
  | Sync_P3       \<comment> \<open>line 88: the bytes \<^verbatim>\<open>memcpy\<close> writes to \<^verbatim>\<open>P3\<close>\<close>
  | Burst         \<comment> \<open>lines 93-94: \<^verbatim>\<open>Circle_D[...]\<close> in the CP burst\<close>
  | Counter       \<comment> \<open>lines 99-108: \<^verbatim>\<open>C_PP[i]\<close>\<close>
  | Swap          \<comment> \<open>lines 102 and 110: \<^verbatim>\<open>P1[i]\<close>, \<^verbatim>\<open>P1[target]\<close>\<close>
  | Restore       \<comment> \<open>line 113: \<^verbatim>\<open>P1[lastIndex]\<close>\<close>

type_synonym policy = "site \<Rightarrow> int \<Rightarrow> bool"

definition c_policy :: policy where
  "c_policy st i = True"

definition tight :: "nat \<Rightarrow> policy" where
  "tight N st i =
     (case st of
        Loop_test \<Rightarrow> i = 0
      | Sync_src \<Rightarrow> 0 \<le> i \<and> i \<le> int N - 2
      | Sync_P2 \<Rightarrow> int N \<le> i \<and> i \<le> 2 * int N - 2
      | Sync_P3 \<Rightarrow> 2 * int N - 1 \<le> i \<and> i \<le> 3 * int N - 3
      | Burst \<Rightarrow> int N - 1 \<le> i \<and> i \<le> 2 * int N - 2
      | Counter \<Rightarrow> 0 \<le> i \<and> i \<le> int N - 3
      | Swap \<Rightarrow> 0 \<le> i \<and> i \<le> int N - 3
      | Restore \<Rightarrow> i = int N - 1)"

definition admits :: "policy \<Rightarrow> nat \<Rightarrow> bool" where
  "admits A N = (\<forall>st i. tight N st i \<longrightarrow> A st i)"

record state =
  Circle_D :: "int list"
  C_PP :: "int list"
  total_perms :: "64 word"

definition in_array :: "int list \<Rightarrow> int \<Rightarrow> bool" where
  "in_array xs i = (0 \<le> i \<and> i < int (length xs))"

definition rdD :: "policy \<Rightarrow> site \<Rightarrow> int \<Rightarrow> state \<Rightarrow> int option" where
  "rdD A st i s =
     (if in_array (Circle_D s) i \<and> A st i then Some (Circle_D s ! nat i) else None)"

definition wrD :: "policy \<Rightarrow> site \<Rightarrow> int \<Rightarrow> int \<Rightarrow> state \<Rightarrow> state option" where
  "wrD A st i v s =
     (if in_array (Circle_D s) i \<and> A st i
      then Some (s\<lparr>Circle_D := (Circle_D s)[nat i := v]\<rparr>) else None)"

definition rdC :: "policy \<Rightarrow> site \<Rightarrow> int \<Rightarrow> state \<Rightarrow> int option" where
  "rdC A st i s =
     (if in_array (C_PP s) i \<and> A st i then Some (C_PP s ! nat i) else None)"

definition wrC :: "policy \<Rightarrow> site \<Rightarrow> int \<Rightarrow> int \<Rightarrow> state \<Rightarrow> state option" where
  "wrC A st i v s =
     (if in_array (C_PP s) i \<and> A st i
      then Some (s\<lparr>C_PP := (C_PP s)[nat i := v]\<rparr>) else None)"

text \<open>
  \<^verbatim>\<open>memcpy(Circle_D + dst, Circle_D + src, n * sizeof(int))\<close>: \<open>n\<close> elements are read at
  \<open>src, ..., src + n - 1\<close> and written at \<open>dst, ..., dst + n - 1\<close>. A negative count (the
  \<^verbatim>\<open>size_t\<close> conversion of a negative \<^verbatim>\<open>int\<close>) and overlapping regions are failures too.
\<close>

definition copy_D :: "nat \<Rightarrow> nat \<Rightarrow> nat \<Rightarrow> int list \<Rightarrow> int list" where
  "copy_D dst src n D = take dst D @ take n (drop src D) @ drop (dst + n) D"

definition memcpy_D :: "policy \<Rightarrow> site \<Rightarrow> int \<Rightarrow> int \<Rightarrow> int \<Rightarrow> state \<Rightarrow> state option" where
  "memcpy_D A st dst src n s =
     (let D = Circle_D s in
      if 0 \<le> n \<and> 0 \<le> src \<and> 0 \<le> dst
         \<and> src + n \<le> int (length D) \<and> dst + n \<le> int (length D)
         \<and> (src + n \<le> dst \<or> dst + n \<le> src)
         \<and> list_all (\<lambda>k. A Sync_src (src + int k) \<and> A st (dst + int k)) [0..<nat n]
      then Some (s\<lparr>Circle_D := copy_D (nat dst) (nat src) (nat n) D\<rparr>)
      else None)"

subsection \<open>Initialisation (lines 73-82)\<close>

text \<open>
  Both arrays are static and zero-initialised; the loop \<^verbatim>\<open>for (j = 0; j < N; j++) P1[j] = j\<close>
  writes the identity into the first window.
\<close>

definition init :: "nat \<Rightarrow> state" where
  "init N = \<lparr> Circle_D = fold (\<lambda>j D. D[j := int j]) [0..<N] (replicate (3 * N) 0),
              C_PP = replicate N 0,
              total_perms = 0 \<rparr>"

subsection \<open>Phase 1: mirror synchronisation (lines 87-88)\<close>

definition sync_P2 :: "policy \<Rightarrow> nat \<Rightarrow> state \<Rightarrow> state option" where
  "sync_P2 A N s = memcpy_D A Sync_P2 (int N) 0 (int N - 1) s"

definition sync_P3 :: "policy \<Rightarrow> nat \<Rightarrow> state \<Rightarrow> state option" where
  "sync_P3 A N s = memcpy_D A Sync_P3 (int N + (int N - 1)) 0 (int N - 1) s"

subsection \<open>Phase 2: the CP burst (lines 91-95)\<close>

definition burst_step :: "policy \<Rightarrow> nat \<Rightarrow> int \<Rightarrow> state \<Rightarrow> state option" where
  "burst_step A N circle_index s = do {
     let s = s\<lparr>total_perms := total_perms s + of_nat N\<rparr>;
     v \<leftarrow> rdD A Burst (int N + circle_index) s;
     s \<leftarrow> wrD A Burst ((int N - 1) + circle_index) v s;
     wrD A Burst (int N + circle_index) (int N - 1) s
   }"

function burst :: "policy \<Rightarrow> nat \<Rightarrow> int \<Rightarrow> state \<Rightarrow> state option" where
  "burst A N circle_index s =
     (if circle_index < int N - 1
      then (case burst_step A N circle_index s of
              None \<Rightarrow> None
            | Some s' \<Rightarrow> burst A N (circle_index + 1) s')
      else Some s)"
  by pat_completeness auto
termination
  by (relation "measure (\<lambda>(A, N, ci, s). nat (int N - 1 - ci))") auto

subsection \<open>Phase 3: PP increment, carry and in-place swap (lines 98-113)\<close>

definition swap_P1 :: "policy \<Rightarrow> int \<Rightarrow> int \<Rightarrow> state \<Rightarrow> state option" where
  "swap_P1 A i target s = do {
     temp \<leftarrow> rdD A Swap i s;
     v \<leftarrow> rdD A Swap target s;
     s \<leftarrow> wrD A Swap i v s;
     wrD A Swap target temp s
   }"

definition incr_C :: "policy \<Rightarrow> int \<Rightarrow> state \<Rightarrow> state option" where
  "incr_C A i s = do { c \<leftarrow> rdC A Counter i s; wrC A Counter i (c + 1) s }"

definition carry_step :: "policy \<Rightarrow> int \<Rightarrow> state \<Rightarrow> state option" where
  "carry_step A i s = do {
     c \<leftarrow> rdC A Counter i s;
     let target = c - 1;
     s \<leftarrow> swap_P1 A i target s;
     s \<leftarrow> wrC A Counter i 0 s;
     incr_C A (i - 1) s
   }"

text \<open>
  The loop \<^verbatim>\<open>while (i > 0 && C_PP[i] > i)\<close>: \<^verbatim>\<open>&&\<close> reads \<^verbatim>\<open>C_PP[i]\<close> only when
  \<^verbatim>\<open>i > 0\<close>. The function returns the final \<^verbatim>\<open>i\<close> with the state.
\<close>

function carry :: "policy \<Rightarrow> int \<Rightarrow> state \<Rightarrow> (int \<times> state) option" where
  "carry A i s =
     (if i > 0
      then (case rdC A Counter i s of
              None \<Rightarrow> None
            | Some c \<Rightarrow>
                if c > i
                then (case carry_step A i s of
                        None \<Rightarrow> None
                      | Some s' \<Rightarrow> carry A (i - 1) s')
                else Some (i, s))
      else Some (i, s))"
  by pat_completeness auto
termination
  by (relation "measure (\<lambda>(A, i, s). nat i)") auto

definition final_swap :: "policy \<Rightarrow> int \<Rightarrow> state \<Rightarrow> state option" where
  "final_swap A i s = do {
     c0 \<leftarrow> rdC A Loop_test 0 s;
     if c0 < 1
     then do {
       c \<leftarrow> rdC A Counter i s;
       let target = c - 1;
       if target \<ge> 0 then swap_P1 A i target s else Some s
     }
     else Some s
   }"

definition advance_base :: "policy \<Rightarrow> nat \<Rightarrow> state \<Rightarrow> state option" where
  "advance_base A N s = do {
     let i = int N - 3;
     s \<leftarrow> incr_C A i s;
     (i, s) \<leftarrow> carry A i s;
     s \<leftarrow> final_swap A i s;
     wrD A Restore (int N - 1) (int N - 1) s
   }"

subsection \<open>The loop body and the main loop (lines 85-114)\<close>

definition advance_outer :: "policy \<Rightarrow> nat \<Rightarrow> state \<Rightarrow> state option" where
  "advance_outer A N s = do {
     s \<leftarrow> sync_P2 A N s;
     s \<leftarrow> sync_P3 A N s;
     burst A N 0 s
   }"

definition body :: "policy \<Rightarrow> nat \<Rightarrow> state \<Rightarrow> state option" where
  "body A N s = do { s \<leftarrow> advance_outer A N s; advance_base A N s }"

text \<open>
  \<^verbatim>\<open>while (C_PP[0] < 1) { body }\<close>. The loop may run forever as far as its definition
  goes, so it is a partial function: \<open>None\<close> is both a failed access and a loop that does
  not return. The body is a parameter, so that the same loop also runs the variant of
  the body below.
\<close>

partial_function (option) while_loop ::
  "policy \<Rightarrow> (state \<Rightarrow> state option) \<Rightarrow> state \<Rightarrow> state option" where
  "while_loop A b s = do {
     c0 \<leftarrow> rdC A Loop_test 0 s;
     if c0 < 1 then do { s' \<leftarrow> b s; while_loop A b s' } else Some s
   }"

definition main_loop :: "policy \<Rightarrow> nat \<Rightarrow> state \<Rightarrow> state option" where
  "main_loop A N = while_loop A (body A N)"

definition run :: "policy \<Rightarrow> nat \<Rightarrow> state option" where
  "run A N = main_loop A N (init N)"

text \<open>
  \<open>loop_head A b k s\<close> is the state at the \<open>k\<close>-th loop head after \<open>s\<close>: the loop test
  passed and the body ran \<open>k\<close> times. It is \<open>None\<close> when the loop leaves earlier or an
  access fails.
\<close>

primrec loop_head ::
  "policy \<Rightarrow> (state \<Rightarrow> state option) \<Rightarrow> nat \<Rightarrow> state \<Rightarrow> state option" where
  "loop_head A b 0 s = Some s"
| "loop_head A b (Suc k) s = do {
     c0 \<leftarrow> rdC A Loop_test 0 s;
     if c0 < 1 then do { s' \<leftarrow> b s; loop_head A b k s' } else None
   }"

definition head :: "policy \<Rightarrow> nat \<Rightarrow> nat \<Rightarrow> state option" where
  "head A N k = loop_head A (body A N) k (init N)"

text \<open>The three windows of \<^verbatim>\<open>Circle_D\<close>: \<^verbatim>\<open>P1 = Circle_D\<close>, \<^verbatim>\<open>P2 = Circle_D + N\<close>,
  \<^verbatim>\<open>P3 = Circle_D + N + (N - 1)\<close>; \<open>P2\<close> and \<open>P3\<close> are read as the \<open>N - 1\<close> elements the
  \<^verbatim>\<open>memcpy\<close>s fill.\<close>

definition P1 :: "nat \<Rightarrow> state \<Rightarrow> int list" where
  "P1 N s = take N (Circle_D s)"

definition P2 :: "nat \<Rightarrow> state \<Rightarrow> int list" where
  "P2 N s = take (N - 1) (drop N (Circle_D s))"

definition P3 :: "nat \<Rightarrow> state \<Rightarrow> int list" where
  "P3 N s = take (N - 1) (drop (N + (N - 1)) (Circle_D s))"

subsection \<open>The variant without the second \<^verbatim>\<open>memcpy\<close>\<close>

text \<open>The loop body with line 88 (\<^verbatim>\<open>memcpy(P3, P1, ...)\<close>) removed, and the program with it.\<close>

definition advance_outer_noP3 :: "policy \<Rightarrow> nat \<Rightarrow> state \<Rightarrow> state option" where
  "advance_outer_noP3 A N s = do {
     s \<leftarrow> sync_P2 A N s;
     burst A N 0 s
   }"

definition body_noP3 :: "policy \<Rightarrow> nat \<Rightarrow> state \<Rightarrow> state option" where
  "body_noP3 A N s = do { s \<leftarrow> advance_outer_noP3 A N s; advance_base A N s }"

definition run_noP3 :: "policy \<Rightarrow> nat \<Rightarrow> state option" where
  "run_noP3 A N = while_loop A (body_noP3 A N) (init N)"

subsection \<open>The base-advance rule as the specification words it\<close>

text \<open>
  The specification describes \<open>advance_base\<close> on the counter array \<open>C\<close> and the base
  permutation \<open>P\<close> (the first window, \<open>N\<close> elements), with plain unchecked indexing:
  increment \<open>C\<close> at \<open>i = N - 3\<close>; while \<open>C[i] > i\<close> and \<open>i > 0\<close>, swap \<open>P[i]\<close> with
  \<open>P[C[i] - 1]\<close>, reset \<open>C[i]\<close> to 0, decrement \<open>i\<close>, increment \<open>C[i]\<close>; then, if
  \<open>C[0] < 1\<close>, one more swap of \<open>P[i]\<close> and \<open>P[C[i] - 1]\<close> unless the target is negative;
  then force \<open>P[N - 1]\<close> back to \<open>N - 1\<close>.
\<close>

definition swap_list :: "int list \<Rightarrow> nat \<Rightarrow> nat \<Rightarrow> int list" where
  "swap_list P i j = P[i := P ! j, j := P ! i]"

function spec_carry :: "nat \<Rightarrow> int list \<Rightarrow> int list \<Rightarrow> nat \<times> int list \<times> int list" where
  "spec_carry i C P =
     (if C ! i > int i \<and> i > 0
      then (let P' = swap_list P i (nat (C ! i - 1));
                C' = C[i := 0];
                i' = i - 1
            in spec_carry i' (C'[i' := C' ! i' + 1]) P')
      else (i, C, P))"
  by pat_completeness auto
termination
  by (relation "measure (\<lambda>(i, C, P). i)") auto

definition spec_advance_base :: "nat \<Rightarrow> int list \<Rightarrow> int list \<Rightarrow> int list \<times> int list" where
  "spec_advance_base N C P =
     (let i = N - 3;
          C = C[i := C ! i + 1];
          (i, C, P) = spec_carry i C P;
          P = (if C ! 0 < 1
               then (let target = C ! i - 1
                     in if target \<ge> 0 then swap_list P i (nat target) else P)
               else P)
      in (C, P[N - 1 := int N - 1]))"

text \<open>The pair (counter array, first window) after \<open>k\<close> steps of the rule.\<close>

fun pp_iter :: "nat \<Rightarrow> nat \<Rightarrow> int list \<times> int list \<Rightarrow> int list \<times> int list" where
  "pp_iter N 0 cp = cp"
| "pp_iter N (Suc k) cp = pp_iter N k (spec_advance_base N (fst cp) (snd cp))"

subsection \<open>The value of the counter array\<close>

text \<open>
  \<open>cval C n\<close> reads the digits \<open>C[0], ..., C[n - 1]\<close> as a mixed-radix number whose digit
  \<open>j\<close> has radix \<open>j + 1\<close>; the last digit is the least significant.
\<close>

primrec cval :: "int list \<Rightarrow> nat \<Rightarrow> int" where
  "cval C 0 = 0"
| "cval C (Suc j) = cval C j * (int j + 1) + C ! j"

subsection \<open>Closed forms of the first two phases\<close>

text \<open>
  What the phases compute on a buffer of the declared size, as list expressions:
  \<open>mirror2_D\<close> after the first \<^verbatim>\<open>memcpy\<close>, \<open>mirror_D\<close> after both, \<open>burst_D N c\<close> after the
  burst steps \<open>c, ..., N - 2\<close>, \<open>outer_D\<close> after both copies and the whole burst, and
  \<open>outer2_D\<close> the same without the second copy. The lemmas below prove that the checked
  phases return exactly these.
\<close>

definition mirror2_D :: "nat \<Rightarrow> int list \<Rightarrow> int list" where
  "mirror2_D N D = copy_D N 0 (N - 1) D"

definition mirror_D :: "nat \<Rightarrow> int list \<Rightarrow> int list" where
  "mirror_D N D = copy_D (N + (N - 1)) 0 (N - 1) (mirror2_D N D)"

definition burst_D :: "nat \<Rightarrow> nat \<Rightarrow> int list \<Rightarrow> int list" where
  "burst_D N c D =
     map (\<lambda>m. if c < N - 1 \<and> N - 1 + c \<le> m \<and> m < 2 * N - 2 then D ! (m + 1)
              else if c < N - 1 \<and> m = 2 * N - 2 then int N - 1
              else D ! m) [0..<length D]"

definition outer_D :: "nat \<Rightarrow> int list \<Rightarrow> int list" where
  "outer_D N D = burst_D N 0 (mirror_D N D)"

definition outer2_D :: "nat \<Rightarrow> int list \<Rightarrow> int list" where
  "outer2_D N D = burst_D N 0 (mirror2_D N D)"

subsection \<open>One turn of the loop in closed form, and the loop-head invariant\<close>

text \<open>
  \<open>next_state N s\<close> is what one execution of the loop body makes of \<open>s\<close>: the buffer after
  the copies and the burst, then the rule of the base advance on the first window.
  \<open>next_state_noP3\<close> is the same for the body without the second copy. \<open>head_inv N k s\<close>
  is the invariant of the \<open>k\<close>-th loop head: the array sizes, the digit bounds (the
  digit \<open>C[0]\<close> may have overflowed to 1), the counter value \<open>k\<close>, the count so far, and
  the first window a permutation with the label \<open>N - 1\<close> last.
\<close>

definition next_state :: "nat \<Rightarrow> state \<Rightarrow> state" where
  "next_state N s =
     (let D = outer_D N (Circle_D s)
      in case spec_advance_base N (C_PP s) (take N D) of
           (C', P') \<Rightarrow> s\<lparr>total_perms := total_perms s + of_nat (N * (N - 1)),
                          C_PP := C', Circle_D := P' @ drop N D\<rparr>)"

definition next_state_noP3 :: "nat \<Rightarrow> state \<Rightarrow> state" where
  "next_state_noP3 N s =
     (let D = outer2_D N (Circle_D s)
      in case spec_advance_base N (C_PP s) (take N D) of
           (C', P') \<Rightarrow> s\<lparr>total_perms := total_perms s + of_nat (N * (N - 1)),
                          C_PP := C', Circle_D := P' @ drop N D\<rparr>)"

definition digits_ok :: "nat \<Rightarrow> int list \<Rightarrow> bool" where
  "digits_ok N C =
     (length C = N \<and> 0 \<le> C ! 0 \<and> C ! 0 \<le> 1
      \<and> list_all (\<lambda>j. 0 \<le> C ! j \<and> C ! j \<le> int j) [1..<N])"

definition head_inv :: "nat \<Rightarrow> nat \<Rightarrow> state \<Rightarrow> bool" where
  "head_inv N k s =
     (length (Circle_D s) = 3 * N \<and> digits_ok N (C_PP s)
      \<and> cval (C_PP s) (N - 2) = int k
      \<and> total_perms s = of_nat (k * (N * (N - 1)))
      \<and> Circle_D s ! (N - 1) = int N - 1
      \<and> mset (take (N - 1) (Circle_D s)) = mset (map int [0..<N - 1]))"

section \<open>Properties\<close>

declare burst.simps [simp del] carry.simps [simp del] spec_carry.simps [simp del]

lemma init_total: "total_perms (init N) = 0"
  by (simp add: init_def)

lemma admits_c_policy: "admits c_policy N"
  by (simp add: admits_def c_policy_def)

lemma admits_tight: "admits (tight N) N"
  by (simp add: admits_def)

lemma rdD_Some:
  "admits A N \<Longrightarrow> tight N st i \<Longrightarrow> 0 \<le> i \<Longrightarrow> i < int (length (Circle_D s))
   \<Longrightarrow> rdD A st i s = Some (Circle_D s ! nat i)"
  by (simp add: rdD_def in_array_def admits_def)

lemma wrD_Some:
  "admits A N \<Longrightarrow> tight N st i \<Longrightarrow> 0 \<le> i \<Longrightarrow> i < int (length (Circle_D s))
   \<Longrightarrow> wrD A st i v s = Some (s\<lparr>Circle_D := (Circle_D s)[nat i := v]\<rparr>)"
  by (simp add: wrD_def in_array_def admits_def)

lemma rdC_Some:
  "admits A N \<Longrightarrow> tight N st i \<Longrightarrow> 0 \<le> i \<Longrightarrow> i < int (length (C_PP s))
   \<Longrightarrow> rdC A st i s = Some (C_PP s ! nat i)"
  by (simp add: rdC_def in_array_def admits_def)

lemma wrC_Some:
  "admits A N \<Longrightarrow> tight N st i \<Longrightarrow> 0 \<le> i \<Longrightarrow> i < int (length (C_PP s))
   \<Longrightarrow> wrC A st i v s = Some (s\<lparr>C_PP := (C_PP s)[nat i := v]\<rparr>)"
  by (simp add: wrC_def in_array_def admits_def)

subsection \<open>The copy and the mirrors, element by element\<close>

lemma length_copy_D:
  "dst + n \<le> length D \<Longrightarrow> src + n \<le> length D \<Longrightarrow> length (copy_D dst src n D) = length D"
  by (simp add: copy_D_def)

lemma nth_copy_D:
  assumes "dst + n \<le> length D" "src + n \<le> length D" "m < length D"
  shows "copy_D dst src n D ! m = (if dst \<le> m \<and> m < dst + n then D ! (src + (m - dst)) else D ! m)"
proof -
  have l1: "length (take dst D) = dst" and l2: "length (take n (drop src D)) = n"
    using assms by simp_all
  consider "m < dst" | j where "m = dst + j" "j < n" | j where "m = dst + (n + j)"
  proof -
    assume a: "m < dst \<Longrightarrow> thesis" "\<And>j. m = dst + j \<Longrightarrow> j < n \<Longrightarrow> thesis"
      "\<And>j. m = dst + (n + j) \<Longrightarrow> thesis"
    show thesis
    proof (cases "m < dst")
      case True
      then show ?thesis by (rule a(1))
    next
      case False
      show ?thesis
      proof (cases "m < dst + n")
        case True
        with False a(2) [of "m - dst"] show ?thesis by simp
      next
        case False
        with a(3) [of "m - dst - n"] show ?thesis by simp
      qed
    qed
  qed
  then show ?thesis
  proof cases
    case 1
    then show ?thesis
      using l1 by (simp add: copy_D_def nth_append)
  next
    case 2
    have "copy_D dst src n D ! m = (take n (drop src D) @ drop (dst + n) D) ! j"
      unfolding copy_D_def 2(1) using l1 by (metis nth_append_length_plus)
    also have "\<dots> = D ! (src + j)"
      using 2(2) l2 assms(2) by (simp add: nth_append)
    finally show ?thesis
      using 2 by simp
  next
    case 3
    have "copy_D dst src n D ! m = (take n (drop src D) @ drop (dst + n) D) ! (n + j)"
      unfolding copy_D_def 3 using l1 by (metis nth_append_length_plus)
    also have "\<dots> = drop (dst + n) D ! j"
      using l2 by (metis nth_append_length_plus)
    also have "\<dots> = D ! (dst + n + j)"
      using assms(1) by simp
    finally show ?thesis
      using 3 by (simp add: add.assoc)
  qed
qed

lemma length_mirror2_D: "length D = 3 * N \<Longrightarrow> 1 \<le> N \<Longrightarrow> length (mirror2_D N D) = 3 * N"
  by (simp add: mirror2_D_def length_copy_D)

lemma length_mirror_D: "length D = 3 * N \<Longrightarrow> 1 \<le> N \<Longrightarrow> length (mirror_D N D) = 3 * N"
  by (simp add: mirror_D_def length_copy_D length_mirror2_D)

lemma nth_mirror2_D:
  assumes "length D = 3 * N" "1 \<le> N" "m < 3 * N"
  shows "mirror2_D N D ! m = (if N \<le> m \<and> m < 2 * N - 1 then D ! (m - N) else D ! m)"
proof -
  have "mirror2_D N D ! m = (if N \<le> m \<and> m < N + (N - 1) then D ! (0 + (m - N)) else D ! m)"
    unfolding mirror2_D_def by (rule nth_copy_D) (use assms in simp_all)
  moreover have "N + (N - 1) = 2 * N - 1"
    using assms(2) by simp
  ultimately show ?thesis by (simp only: add_0)
qed

lemma nth_mirror_D:
  assumes "length D = 3 * N" "1 \<le> N" "m < 3 * N"
  shows "mirror_D N D ! m =
           (if N \<le> m \<and> m < 2 * N - 1 then D ! (m - N)
            else if 2 * N - 1 \<le> m \<and> m < 3 * N - 2 then D ! (m - (2 * N - 1))
            else D ! m)"
proof -
  let ?E = "mirror2_D N D"
  have eq: "N + (N - 1) = 2 * N - 1" "2 * N - 1 + (N - 1) = 3 * N - 2"
    using assms(2) by simp_all
  have "mirror_D N D ! m =
          (if N + (N - 1) \<le> m \<and> m < N + (N - 1) + (N - 1) then ?E ! (0 + (m - (N + (N - 1))))
           else ?E ! m)"
    unfolding mirror_D_def
    by (rule nth_copy_D) (use assms in \<open>simp_all add: length_mirror2_D\<close>)
  then have *: "mirror_D N D ! m =
          (if 2 * N - 1 \<le> m \<and> m < 3 * N - 2 then ?E ! (m - (2 * N - 1)) else ?E ! m)"
    by (simp only: eq add_0)
  show ?thesis
  proof (cases "2 * N - 1 \<le> m \<and> m < 3 * N - 2")
    case True
    then have "m - (2 * N - 1) < N" "m - (2 * N - 1) < 3 * N" "\<not> (N \<le> m \<and> m < 2 * N - 1)"
      by linarith+
    then show ?thesis
      using * True nth_mirror2_D [OF assms(1,2), of "m - (2 * N - 1)"] by simp
  next
    case False
    then show ?thesis
      using * nth_mirror2_D [OF assms] by auto
  qed
qed

subsection \<open>The phases return their closed forms\<close>

lemma nth_burst_D:
  "m < length D \<Longrightarrow> burst_D N c D ! m =
     (if c < N - 1 \<and> N - 1 + c \<le> m \<and> m < 2 * N - 2 then D ! (m + 1)
      else if c < N - 1 \<and> m = 2 * N - 2 then int N - 1
      else D ! m)"
  by (simp add: burst_D_def)

lemma burst_step_Some:
  assumes "admits A N" "length (Circle_D s) = 3 * N" "c < N - 1"
  shows "burst_step A N (int c) s =
           Some (s\<lparr>total_perms := total_perms s + of_nat N,
                   Circle_D := (Circle_D s)[N - 1 + c := Circle_D s ! (N + c), N + c := int N - 1]\<rparr>)"
proof -
  have t1: "tight N Burst (int N + int c)" and t2: "tight N Burst (int N - 1 + int c)"
    using assms(3) by (auto simp: tight_def)
  have n1: "nat (int N + int c) = N + c" and n2: "nat (int N - 1 + int c) = N - 1 + c"
    using assms(3) by auto
  show ?thesis
    unfolding burst_step_def Let_def
    using assms t1 t2
    by (simp add: rdD_Some [OF assms(1) t1] wrD_Some [OF assms(1) t2] wrD_Some [OF assms(1) t1] n1 n2)
qed

lemma burst_Some:
  assumes "admits A N" "length (Circle_D s) = 3 * N" "c \<le> N - 1"
  shows "burst A N (int c) s =
           Some (s\<lparr>total_perms := total_perms s + of_nat (N * (N - 1 - c)),
                   Circle_D := burst_D N c (Circle_D s)\<rparr>)"
  using assms
proof (induction "N - 1 - c" arbitrary: c s)
  case 0
  then have "c = N - 1" by simp
  moreover have "burst_D N (N - 1) (Circle_D s) = Circle_D s"
    by (auto simp: burst_D_def intro!: nth_equalityI)
  moreover have "\<not> int c < int N - 1" using \<open>c = N - 1\<close> by linarith
  ultimately show ?case by (subst burst.simps) simp
next
  case (Suc k)
  then have c: "c < N - 1" by simp
  let ?s' = "s\<lparr>total_perms := total_perms s + of_nat N,
                   Circle_D := (Circle_D s)[N - 1 + c := Circle_D s ! (N + c), N + c := int N - 1]\<rparr>"
  have st: "burst_step A N (int c) s = Some ?s'"
    by (rule burst_step_Some [OF Suc(3) Suc(4) c])
  have k: "k = N - 1 - Suc c" using Suc(2) by simp
  have ih: "burst A N (int (Suc c)) ?s' = Some (?s'\<lparr>total_perms := total_perms ?s' + of_nat (N * (N - 1 - Suc c)),
                   Circle_D := burst_D N (Suc c) (Circle_D ?s')\<rparr>)"
    by (rule Suc(1) [OF k Suc(3)]) (use Suc c in auto)
  have D: "burst_D N (Suc c) ((Circle_D s)[N - 1 + c := Circle_D s ! (N + c), N + c := int N - 1])
         = burst_D N c (Circle_D s)"
    using c Suc(4)
    by (auto simp: burst_D_def nth_list_update
             intro!: nth_equalityI arg_cong [where f = "(!) (Circle_D s)"])
  have T: "N + N * (N - 1 - Suc c) = N * (N - 1 - c)"
    using c by (metis Suc_diff_Suc diff_diff_left mult_Suc_right plus_1_eq_Suc)
  have ci: "int c < int N - 1" using c by linarith
  have "burst A N (int c) s = burst A N (int c + 1) ?s'"
    by (subst burst.simps) (simp only: ci st if_True option.case)
  also have "int c + 1 = int (Suc c)" by simp
  finally have "burst A N (int c) s =
      Some (?s'\<lparr>total_perms := total_perms ?s' + of_nat (N * (N - 1 - Suc c)),
                   Circle_D := burst_D N (Suc c) (Circle_D ?s')\<rparr>)"
    using ih by simp
  moreover have "(of_nat N :: 64 word) + of_nat (N * (N - 1 - Suc c)) = of_nat (N * (N - 1 - c))"
    unfolding T [symmetric] by (simp only: of_nat_add)
  ultimately show ?case
    using D by (simp add: add.assoc)
qed

lemma sync_P2_Some:
  assumes "admits A N" "length (Circle_D s) = 3 * N" "1 \<le> N"
  shows "sync_P2 A N s = Some (s\<lparr>Circle_D := mirror2_D N (Circle_D s)\<rparr>)"
proof -
  have "list_all (\<lambda>k. A Sync_src (0 + int k) \<and> A Sync_P2 (int N + int k)) [0..<nat (int N - 1)]"
    using assms(1) by (auto simp: list_all_iff admits_def tight_def)
  moreover have "nat (int N - 1) = N - 1"
    by simp
  ultimately show ?thesis
    using assms(2,3) by (simp add: sync_P2_def memcpy_D_def mirror2_D_def Let_def)
qed

lemma sync_P3_Some:
  assumes "admits A N" "length (Circle_D s) = 3 * N" "1 \<le> N"
  shows "sync_P3 A N (s\<lparr>Circle_D := mirror2_D N (Circle_D s)\<rparr>)
           = Some (s\<lparr>Circle_D := mirror_D N (Circle_D s)\<rparr>)"
proof -
  let ?D2 = "mirror2_D N (Circle_D s)"
  have len: "length ?D2 = 3 * N"
    using assms(2,3) by (rule length_mirror2_D)
  have "list_all (\<lambda>k. A Sync_src (0 + int k) \<and> A Sync_P3 (int N + (int N - 1) + int k))
          [0..<nat (int N - 1)]"
    using assms(1) by (auto simp: list_all_iff admits_def tight_def)
  moreover have n: "nat (int N - 1) = N - 1" "nat (int N + (int N - 1)) = N + (N - 1)"
    using assms(3) by auto
  ultimately show ?thesis
    using assms(3) len by (simp add: sync_P3_def memcpy_D_def Let_def mirror_D_def)
qed

lemma length_burst_D: "length (burst_D N c D) = length D"
  by (simp add: burst_D_def)

lemma length_outer_D: "length D = 3 * N \<Longrightarrow> 1 \<le> N \<Longrightarrow> length (outer_D N D) = 3 * N"
  by (simp add: outer_D_def length_burst_D length_mirror_D)

lemma length_outer2_D: "length D = 3 * N \<Longrightarrow> 1 \<le> N \<Longrightarrow> length (outer2_D N D) = 3 * N"
  by (simp add: outer2_D_def length_burst_D length_mirror2_D)

lemma advance_outer_Some:
  assumes "admits A N" "length (Circle_D s) = 3 * N" "1 \<le> N"
  shows "advance_outer A N s =
           Some (s\<lparr>total_perms := total_perms s + of_nat (N * (N - 1)),
                   Circle_D := outer_D N (Circle_D s)\<rparr>)"
proof -
  let ?s3 = "s\<lparr>Circle_D := mirror_D N (Circle_D s)\<rparr>"
  have "burst A N (int 0) ?s3 =
          Some (?s3\<lparr>total_perms := total_perms ?s3 + of_nat (N * (N - 1 - 0)),
                     Circle_D := burst_D N 0 (Circle_D ?s3)\<rparr>)"
    by (rule burst_Some [OF assms(1)]) (use assms in \<open>simp_all add: length_mirror_D\<close>)
  then show ?thesis
    by (simp add: advance_outer_def sync_P2_Some [OF assms] sync_P3_Some [OF assms] outer_D_def)
qed

lemma advance_outer_noP3_Some:
  assumes "admits A N" "length (Circle_D s) = 3 * N" "1 \<le> N"
  shows "advance_outer_noP3 A N s =
           Some (s\<lparr>total_perms := total_perms s + of_nat (N * (N - 1)),
                   Circle_D := outer2_D N (Circle_D s)\<rparr>)"
proof -
  let ?s2 = "s\<lparr>Circle_D := mirror2_D N (Circle_D s)\<rparr>"
  have "burst A N (int 0) ?s2 =
          Some (?s2\<lparr>total_perms := total_perms ?s2 + of_nat (N * (N - 1 - 0)),
                     Circle_D := burst_D N 0 (Circle_D ?s2)\<rparr>)"
    by (rule burst_Some [OF assms(1)]) (use assms in \<open>simp_all add: length_mirror2_D\<close>)
  then show ?thesis
    by (simp add: advance_outer_noP3_def sync_P2_Some [OF assms] outer2_D_def)
qed

text \<open>The buffer after the two copies and the burst, element by element: \<open>P1\<close> keeps its
  first \<open>N - 1\<close> elements, they appear again from index \<open>N - 1\<close> on, followed by the label
  \<open>N - 1\<close>, and the trailing window holds a third copy.\<close>

lemma nth_outer_D:
  assumes "length D = 3 * N" "2 \<le> N" "m < 3 * N"
  shows "outer_D N D ! m =
           (if m < N - 1 then D ! m
            else if m < 2 * N - 2 then D ! (m - (N - 1))
            else if m = 2 * N - 2 then int N - 1
            else if m < 3 * N - 2 then D ! (m - (2 * N - 1))
            else D ! m)"
proof -
  have N: "1 \<le> N" using assms(2) by simp
  have len: "length (mirror_D N D) = 3 * N"
    using assms(1) N by (rule length_mirror_D)
  have b: "outer_D N D ! m =
     (if N - 1 \<le> m \<and> m < 2 * N - 2 then mirror_D N D ! (m + 1)
      else if m = 2 * N - 2 then int N - 1
      else mirror_D N D ! m)"
    using assms(2,3) len by (simp add: outer_D_def nth_burst_D)
  consider "m < N - 1" | "N - 1 \<le> m" "m < 2 * N - 2" | "m = 2 * N - 2"
    | "2 * N - 2 < m" "m < 3 * N - 2" | "3 * N - 2 \<le> m"
    by linarith
  then show ?thesis
  proof cases
    case 1
    then have "\<not> (N \<le> m \<and> m < 2 * N - 1)" "m \<noteq> 2 * N - 2"
      "\<not> (2 * N - 1 \<le> m \<and> m < 3 * N - 2)" "\<not> (N - 1 \<le> m \<and> m < 2 * N - 2)"
      by linarith+
    then show ?thesis
      using 1 b nth_mirror_D [OF assms(1) N assms(3)] by auto
  next
    case 2
    then have "m + 1 < 3 * N" "N \<le> m + 1" "m + 1 < 2 * N - 1" "m + 1 - N = m - (N - 1)"
      using assms(2) by linarith+
    then show ?thesis
      using 2 b nth_mirror_D [OF assms(1) N, of "m + 1"] by simp
  next
    case 3
    then have "\<not> m < N - 1" "\<not> m < 2 * N - 2" "\<not> (N - 1 \<le> m \<and> m < 2 * N - 2)"
      using assms(2) by linarith+
    then show ?thesis
      using 3 b by auto
  next
    case 4
    then have "\<not> m < N - 1" "\<not> m < 2 * N - 2" "m \<noteq> 2 * N - 2" "2 * N - 1 \<le> m"
      "\<not> (N \<le> m \<and> m < 2 * N - 1)"
      by linarith+
    then show ?thesis
      using 4 b nth_mirror_D [OF assms(1) N assms(3)] by auto
  next
    case 5
    then have "\<not> m < N - 1" "\<not> m < 2 * N - 2" "m \<noteq> 2 * N - 2" "\<not> m < 3 * N - 2"
      "\<not> (N \<le> m \<and> m < 2 * N - 1)"
      using assms(2) by linarith+
    then show ?thesis
      using b nth_mirror_D [OF assms(1) N assms(3)] by auto
  qed
qed

lemma nth_outer2_D:
  assumes "length D = 3 * N" "2 \<le> N" "m < 3 * N"
  shows "outer2_D N D ! m =
           (if m < N - 1 then D ! m
            else if m < 2 * N - 2 then D ! (m - (N - 1))
            else if m = 2 * N - 2 then int N - 1
            else D ! m)"
proof -
  have N: "1 \<le> N" using assms(2) by simp
  have len: "length (mirror2_D N D) = 3 * N"
    using assms(1) N by (rule length_mirror2_D)
  have b: "outer2_D N D ! m =
     (if N - 1 \<le> m \<and> m < 2 * N - 2 then mirror2_D N D ! (m + 1)
      else if m = 2 * N - 2 then int N - 1
      else mirror2_D N D ! m)"
    using assms(2,3) len by (simp add: outer2_D_def nth_burst_D)
  consider "m < N - 1" | "N - 1 \<le> m" "m < 2 * N - 2" | "m = 2 * N - 2" | "2 * N - 2 < m"
    by linarith
  then show ?thesis
  proof cases
    case 1
    then have "\<not> (N \<le> m \<and> m < 2 * N - 1)" "m \<noteq> 2 * N - 2"
      "\<not> (N - 1 \<le> m \<and> m < 2 * N - 2)"
      by linarith+
    then show ?thesis
      using 1 b nth_mirror2_D [OF assms(1) N assms(3)] by auto
  next
    case 2
    then have "m + 1 < 3 * N" "N \<le> m + 1" "m + 1 < 2 * N - 1" "m + 1 - N = m - (N - 1)"
      using assms(2) by linarith+
    then show ?thesis
      using 2 b nth_mirror2_D [OF assms(1) N, of "m + 1"] by simp
  next
    case 3
    then have "\<not> m < N - 1" "\<not> m < 2 * N - 2" "\<not> (N - 1 \<le> m \<and> m < 2 * N - 2)"
      using assms(2) by linarith+
    then show ?thesis
      using 3 b by auto
  next
    case 4
    then have "\<not> m < N - 1" "\<not> m < 2 * N - 2" "m \<noteq> 2 * N - 2"
      "\<not> (N \<le> m \<and> m < 2 * N - 1)"
      by linarith+
    then show ?thesis
      using b nth_mirror2_D [OF assms(1) N assms(3)] by auto
  qed
qed

subsection \<open>The initial state\<close>

lemma fold_identity:
  "k \<le> n \<Longrightarrow> fold (\<lambda>j D. D[j := int j]) [0..<k] (replicate n 0)
                = map int [0..<k] @ replicate (n - k) 0"
proof (induction k)
  case 0
  then show ?case by simp
next
  case (Suc k)
  then obtain m where m: "n - k = Suc m" "n - Suc k = m"
    by (metis Suc_diff_Suc Suc_le_lessD)
  have "(map int [0..<k] @ replicate (n - k) 0)[k := int k]
          = map int [0..<k] @ (replicate (n - k) 0)[0 := int k]"
    by (simp add: list_update_append)
  also have "\<dots> = map int [0..<Suc k] @ replicate (n - Suc k) 0"
    by (simp add: m)
  finally show ?case
    using Suc by simp
qed

lemma init_D: "Circle_D (init N) = map int [0..<N] @ replicate (2 * N) 0"
  using fold_identity [of N "3 * N"] by (simp add: init_def)

lemma init_C: "C_PP (init N) = replicate N 0"
  by (simp add: init_def)

lemma length_init_D: "length (Circle_D (init N)) = 3 * N"
  by (simp add: init_D)

subsection \<open>The burst: its count and its frame\<close>

lemma burst_step_total:
  "burst_step A N c t = Some t' \<Longrightarrow> total_perms t' = total_perms t + of_nat N"
  by (auto simp: burst_step_def rdD_def wrD_def Let_def split: if_splits bind_splits)

text \<open>
  Claim C3. Every step of the burst adds exactly \<open>N\<close> to \<^verbatim>\<open>total_perms\<close>, and the burst
  of one outer iteration (\<open>N - 1\<close> steps, on a buffer of the declared size \<open>3 * N\<close>) returns
  with \<^verbatim>\<open>total_perms\<close> increased by exactly \<open>N * (N - 1)\<close>, for \<open>N > 1\<close>. The additions are
  those of \<^verbatim>\<open>unsigned long long\<close>, that is modulo \<open>2 ^ 64\<close>.
\<close>

theorem burst_total_perms:
  assumes "length (Circle_D s) = 3 * N" and "1 < N"
  shows "(\<exists>s'. burst c_policy N 0 s = Some s'
              \<and> total_perms s' = total_perms s + of_nat (N * (N - 1)))
         \<and> (\<forall>c t t'. burst_step c_policy N c t = Some t'
              \<longrightarrow> total_perms t' = total_perms t + of_nat N)"
proof -
  have "burst c_policy N (int 0) s =
          Some (s\<lparr>total_perms := total_perms s + of_nat (N * (N - 1 - 0)),
                  Circle_D := burst_D N 0 (Circle_D s)\<rparr>)"
    by (rule burst_Some [OF admits_c_policy assms(1)]) simp
  then show ?thesis
    by (auto dest: burst_step_total)
qed

theorem burst_total_perms_witness:
  "length (Circle_D (init 3)) = 3 * 3 \<and> (1::nat) < 3
   \<and> (\<exists>s'. burst c_policy 3 0 (init 3) = Some s' \<and> total_perms s' = 6)
   \<and> (\<exists>t'. burst_step c_policy 3 0 (init 3) = Some t' \<and> total_perms t' = 3)"
proof -
  have l: "length (Circle_D (init 3)) = 3 * 3"
    by (simp add: length_init_D)
  have "\<exists>t'. burst_step c_policy 3 0 (init 3) = Some t'"
    using burst_step_Some [OF admits_c_policy l, of 0] by simp
  then show ?thesis
    using burst_total_perms [OF l] l by (auto simp: init_total)
qed

text \<open>
  Claim C9. On a buffer of the declared size the burst returns, and it changes
  \<^verbatim>\<open>Circle_D\<close> only at the indices \<open>N - 1, ..., 2 * N - 2\<close>: the first \<open>N - 1\<close> elements of
  \<open>P1\<close> and everything from index \<open>2 * N - 1\<close> on (the trailing window) keep their values,
  \<^verbatim>\<open>C_PP\<close> is unchanged, \<^verbatim>\<open>total_perms\<close> grows by the sum \<open>N * (N - 1)\<close>, and no other
  part of the state changes.
\<close>

theorem burst_frame:
  assumes "length (Circle_D s) = 3 * N"
  shows "\<exists>D'. burst c_policy N 0 s =
                 Some (s\<lparr>total_perms := total_perms s + of_nat (N * (N - 1)), Circle_D := D'\<rparr>)
              \<and> length D' = 3 * N
              \<and> (\<forall>m. m < 3 * N \<and> (m < N - 1 \<or> 2 * N - 2 < m) \<longrightarrow> D' ! m = Circle_D s ! m)
              \<and> take (N - 1) D' = take (N - 1) (Circle_D s)
              \<and> drop (2 * N - 1) D' = drop (2 * N - 1) (Circle_D s)"
proof -
  let ?D' = "burst_D N 0 (Circle_D s)"
  have "burst c_policy N (int 0) s =
          Some (s\<lparr>total_perms := total_perms s + of_nat (N * (N - 1 - 0)), Circle_D := ?D'\<rparr>)"
    by (rule burst_Some [OF admits_c_policy assms(1)]) simp
  moreover have len: "length ?D' = 3 * N"
    using assms by (simp add: burst_D_def)
  moreover have nth: "\<forall>m. m < 3 * N \<and> (m < N - 1 \<or> 2 * N - 2 < m) \<longrightarrow> ?D' ! m = Circle_D s ! m"
    using assms by (auto simp: burst_D_def)
  moreover have "take (N - 1) ?D' = take (N - 1) (Circle_D s)"
    using assms len nth by (auto intro!: nth_equalityI)
  moreover have "drop (2 * N - 1) ?D' = drop (2 * N - 1) (Circle_D s)"
  proof (rule nth_equalityI)
    show "length (drop (2 * N - 1) ?D') = length (drop (2 * N - 1) (Circle_D s))"
      using assms len by simp
    fix i assume "i < length (drop (2 * N - 1) ?D')"
    then have "i < 3 * N - (2 * N - 1)"
      using len by simp
    then have "2 * N - 1 + i < 3 * N" "2 * N - 2 < 2 * N - 1 + i"
      by arith+
    then have "?D' ! (2 * N - 1 + i) = Circle_D s ! (2 * N - 1 + i)"
      using nth by blast
    then show "drop (2 * N - 1) ?D' ! i = drop (2 * N - 1) (Circle_D s) ! i"
      using assms len by simp
  qed
  ultimately show ?thesis
    by (intro exI [of _ ?D']) simp
qed

theorem burst_frame_witness:
  "length (Circle_D (init 3)) = 3 * 3
   \<and> (\<exists>D'. burst c_policy 3 0 (init 3) = Some ((init 3)\<lparr>total_perms := 6, Circle_D := D'\<rparr>)
           \<and> take 2 D' = [0, 1] \<and> drop 5 D' = [0, 0, 0, 0])"
proof -
  have l: "length (Circle_D (init 3)) = 3 * 3"
    by (simp add: length_init_D)
  have D: "Circle_D (init 3) = [0, 1, 2, 0, 0, 0, 0, 0, 0]"
    by (simp add: init_D upt_rec numeral_eq_Suc)
  show ?thesis
    using burst_frame [OF l] l by (auto simp: init_total D)
qed

subsection \<open>The base advance against the rule of the specification\<close>

lemma rdD_nat:
  "admits A N \<Longrightarrow> tight N st (int i) \<Longrightarrow> i < length (Circle_D s)
   \<Longrightarrow> rdD A st (int i) s = Some (Circle_D s ! i)"
  using rdD_Some [of A N st "int i" s] by simp

lemma wrD_nat:
  "admits A N \<Longrightarrow> tight N st (int i) \<Longrightarrow> i < length (Circle_D s)
   \<Longrightarrow> wrD A st (int i) v s = Some (s\<lparr>Circle_D := (Circle_D s)[i := v]\<rparr>)"
  using wrD_Some [of A N st "int i" s v] by simp

lemma rdC_nat:
  "admits A N \<Longrightarrow> tight N st (int i) \<Longrightarrow> i < length (C_PP s)
   \<Longrightarrow> rdC A st (int i) s = Some (C_PP s ! i)"
  using rdC_Some [of A N st "int i" s] by simp

lemma wrC_nat:
  "admits A N \<Longrightarrow> tight N st (int i) \<Longrightarrow> i < length (C_PP s)
   \<Longrightarrow> wrC A st (int i) v s = Some (s\<lparr>C_PP := (C_PP s)[i := v]\<rparr>)"
  using wrC_Some [of A N st "int i" s v] by simp

text \<open>
  The swaps are followed for every policy that admits the swap site on the indices below a
  bound \<open>B\<close>: \<open>B = N - 2\<close> is what \<open>tight N\<close> admits, \<open>B = N\<close> the whole of \<open>P1\<close>, which the
  C program may touch.
\<close>

lemma swap_window_tight: "admits A N \<Longrightarrow> \<forall>t<N - 2. A Swap (int t)"
  by (auto simp: admits_def tight_def)

lemma swap_window_c_policy: "\<forall>t<B. c_policy Swap (int t)"
  by (simp add: c_policy_def)

lemma swap_P1_Some:
  assumes "\<forall>t<B. A Swap (int t)" "Circle_D s = P @ R" "length P = N" "B \<le> N" "i < B" "t < B"
  shows "swap_P1 A (int i) (int t) s = Some (s\<lparr>Circle_D := swap_list P i t @ R\<rparr>)"
proof -
  have a: "A Swap (int i)" "A Swap (int t)"
    using assms(1,5,6) by auto
  have b: "i < length P" "t < length P"
    using assms(3-6) by auto
  let ?s1 = "s\<lparr>Circle_D := P[i := P ! t] @ R\<rparr>"
  have r1: "rdD A Swap (int i) s = Some (P ! i)" and r2: "rdD A Swap (int t) s = Some (P ! t)"
    using a b assms(2) by (simp_all add: rdD_def in_array_def nth_append)
  have w1: "wrD A Swap (int i) (P ! t) s = Some ?s1"
    using a b assms(2) by (simp add: wrD_def in_array_def list_update_append)
  have w2: "wrD A Swap (int t) (P ! i) ?s1 = Some (s\<lparr>Circle_D := P[i := P ! t, t := P ! i] @ R\<rparr>)"
    using a b assms(2) by (simp add: wrD_def in_array_def list_update_append)
  show ?thesis
    by (simp add: swap_P1_def r1 r2 w1 w2 swap_list_def)
qed

lemma incr_C_Some:
  assumes "admits A N" "length (C_PP s) = N" "3 \<le> N" "i \<le> N - 3"
  shows "incr_C A (int i) s = Some (s\<lparr>C_PP := (C_PP s)[i := C_PP s ! i + 1]\<rparr>)"
proof -
  have t: "tight N Counter (int i)"
    using assms(3,4) by (auto simp: tight_def)
  have b: "i < length (C_PP s)"
    using assms(2-4) by auto
  show ?thesis
    by (simp add: incr_C_def rdC_nat [OF assms(1) t b] wrC_nat [OF assms(1) t b])
qed

lemma spec_carry_stop:
  "\<not> (C ! i > int i \<and> i > 0) \<Longrightarrow> spec_carry i C P = (i, C, P)"
  by (subst spec_carry.simps) auto

lemma spec_carry_step:
  "C ! i > int i \<Longrightarrow> i > 0 \<Longrightarrow>
   spec_carry i C P =
     spec_carry (i - 1) ((C[i := 0])[i - 1 := (C[i := 0]) ! (i - 1) + 1])
       (swap_list P i (nat (C ! i - 1)))"
  by (subst spec_carry.simps) (simp add: Let_def)

lemma carry_refines:
  assumes "admits A N" "3 \<le> N" "\<forall>t<B. A Swap (int t)" "N - 2 \<le> B" "B \<le> N"
  shows "Circle_D s = P @ R \<Longrightarrow> length P = N \<Longrightarrow> length (C_PP s) = N \<Longrightarrow> i \<le> N - 3
     \<Longrightarrow> C_PP s ! i \<le> int B \<Longrightarrow> \<forall>j<i. C_PP s ! j < int B
     \<Longrightarrow> carry A (int i) s =
           Some (case spec_carry i (C_PP s) P of
                   (i', C', P') \<Rightarrow> (int i', s\<lparr>C_PP := C', Circle_D := P' @ R\<rparr>))"
proof (induction i arbitrary: s P rule: less_induct)
  case (less i)
  let ?C = "C_PP s"
  have same: "s\<lparr>C_PP := C_PP s, Circle_D := P @ R\<rparr> = s"
    using less.prems(1) by simp
  have t: "tight N Counter (int i)"
    using less.prems(4) assms(2) by (auto simp: tight_def)
  have b: "i < length (C_PP s)"
    using less.prems(3,4) assms(2) by simp
  have rd: "rdC A Counter (int i) s = Some (?C ! i)"
    by (rule rdC_nat [OF assms(1) t b])
  show ?case
  proof (cases "?C ! i > int i \<and> i > 0")
    case False
    have "carry A (int i) s = Some (int i, s)"
      using False rd by (subst carry.simps) auto
    then show ?thesis
      using False same by (simp add: spec_carry_stop)
  next
    case True
    define t where "t = nat (?C ! i - 1)"
    have tg: "?C ! i - 1 = int t" "t < B"
      using True less.prems(5) by (auto simp: t_def)
    have iB: "i < B"
      using less.prems(4) assms(2,4) by linarith
    have i1: "int i - 1 = int (i - 1)"
      using True by (simp add: of_nat_diff)
    let ?P' = "swap_list P i t"
    let ?C' = "(?C[i := 0])[i - 1 := (?C[i := 0]) ! (i - 1) + 1]"
    let ?s1 = "s\<lparr>Circle_D := ?P' @ R\<rparr>"
    let ?s2 = "?s1\<lparr>C_PP := ?C[i := 0]\<rparr>"
    let ?s3 = "?s2\<lparr>C_PP := ?C'\<rparr>"
    have sw: "swap_P1 A (int i) (int t) s = Some ?s1"
      by (rule swap_P1_Some [where A = A and B = B, OF assms(3) less.prems(1,2) assms(5) iB tg(2)])
    have w: "wrC A Counter (int i) 0 ?s1 = Some ?s2"
      using wrC_nat [OF assms(1) t, of ?s1 0] b by simp
    have "incr_C A (int (i - 1)) ?s2 =
            Some (?s2\<lparr>C_PP := (C_PP ?s2)[i - 1 := C_PP ?s2 ! (i - 1) + 1]\<rparr>)"
      by (rule incr_C_Some [OF assms(1) _ assms(2)]) (use less.prems(3,4) in simp_all)
    then have ic: "incr_C A (int (i - 1)) ?s2 = Some ?s3"
      by simp
    have cs: "carry_step A (int i) s = Some ?s3"
      using sw w ic by (simp add: carry_step_def rd tg(1) Let_def i1)
    have ih: "carry A (int (i - 1)) ?s3 =
           Some (case spec_carry (i - 1) (C_PP ?s3) ?P' of
                   (i', C', P') \<Rightarrow> (int i', ?s3\<lparr>C_PP := C', Circle_D := P' @ R\<rparr>))"
    proof (rule less.IH)
      show "i - 1 < i" using True by simp
      show "Circle_D ?s3 = ?P' @ R" by simp
      show "length ?P' = N" using less.prems(2) by (simp add: swap_list_def)
      show "length (C_PP ?s3) = N" using less.prems(3) by simp
      show "i - 1 \<le> N - 3" using less.prems(4) by simp
      have "i - 1 < i" using True by simp
      then have "?C ! (i - 1) < int B"
        using less.prems(6) by blast
      moreover have "(?C[i := 0]) ! (i - 1) = ?C ! (i - 1)"
        using True by (intro nth_list_update_neq) arith
      ultimately show "C_PP ?s3 ! (i - 1) \<le> int B"
        using b by simp
      show "\<forall>j<i - 1. C_PP ?s3 ! j < int B"
        using less.prems(6) by simp
    qed
    have "carry A (int i) s = carry A (int i - 1) ?s3"
      using True rd cs by (subst carry.simps) simp
    then have "carry A (int i) s =
           Some (case spec_carry (i - 1) ?C' ?P' of
                   (i', C', P') \<Rightarrow> (int i', s\<lparr>C_PP := C', Circle_D := P' @ R\<rparr>))"
      using ih by (simp add: i1 split: prod.splits)
    moreover have "spec_carry i ?C P = spec_carry (i - 1) ?C' ?P'"
      using spec_carry_step [of i ?C P] True by (simp add: t_def)
    ultimately show ?thesis by simp
  qed
qed

lemma spec_carry_exit:
  "spec_carry i C P = (i', C', P') \<Longrightarrow>
     \<not> (C' ! i' > int i' \<and> i' > 0) \<and> i' \<le> i \<and> length C' = length C \<and> length P' = length P"
proof (induction i C P rule: spec_carry.induct)
  case (1 i C P)
  show ?case
  proof (cases "C ! i > int i \<and> i > 0")
    case True
    then have "spec_carry (i - 1) ((C[i := 0])[i - 1 := (C[i := 0]) ! (i - 1) + 1])
       (swap_list P i (nat (C ! i - 1))) = (i', C', P')"
      using 1(2) spec_carry_step [of i C P] by simp
    then have "\<not> (C' ! i' > int i' \<and> i' > 0) \<and> i' \<le> i - 1
        \<and> length C' = length ((C[i := 0])[i - 1 := (C[i := 0]) ! (i - 1) + 1])
        \<and> length P' = length (swap_list P i (nat (C ! i - 1)))"
      using True by (intro "1.IH") auto
    then show ?thesis
      by (auto simp: swap_list_def)
  next
    case False
    then show ?thesis
      using 1(2) by (simp add: spec_carry_stop)
  qed
qed

lemma spec_carry_bound:
  "spec_carry i C P = (i', C', P') \<Longrightarrow> i < length C \<Longrightarrow> C ! i \<le> b \<Longrightarrow> \<forall>j<i. C ! j < b
     \<Longrightarrow> C' ! i' \<le> b"
proof (induction i C P rule: spec_carry.induct)
  case (1 i C P)
  show ?case
  proof (cases "C ! i > int i \<and> i > 0")
    case True
    let ?C1 = "(C[i := 0])[i - 1 := (C[i := 0]) ! (i - 1) + 1]"
    have sc: "spec_carry (i - 1) ?C1 (swap_list P i (nat (C ! i - 1))) = (i', C', P')"
      using 1(2) spec_carry_step [of i C P] True by simp
    have ne: "i \<noteq> i - 1" "i - 1 < i"
      using True by arith+
    have "(C[i := 0]) ! (i - 1) = C ! (i - 1)"
      using ne(1) by (intro nth_list_update_neq)
    moreover have "C ! (i - 1) < b"
      using 1(5) ne(2) by blast
    ultimately have v: "?C1 ! (i - 1) \<le> b"
      using 1(3) ne(2) by simp
    have lo: "\<forall>j<i - 1. ?C1 ! j < b"
      using 1(5) by simp
    show ?thesis
      by (rule "1.IH" [OF _ refl refl refl sc _ v lo]) (use True 1(3) in simp_all)
  next
    case False
    then show ?thesis
      using 1(2,4) by (simp add: spec_carry_stop)
  qed
qed

lemma final_swap_Some:
  assumes "admits A N" "3 \<le> N" "\<forall>t<B. A Swap (int t)" "N - 2 \<le> B" "B \<le> N"
    "Circle_D s = P @ R" "length P = N" "length (C_PP s) = N"
    "i \<le> N - 3" "C_PP s ! i \<le> int B"
  shows "final_swap A (int i) s =
           Some (s\<lparr>Circle_D :=
                   (if C_PP s ! 0 < 1
                    then (let target = C_PP s ! i - 1
                          in if target \<ge> 0 then swap_list P i (nat target) else P)
                    else P) @ R\<rparr>)"
proof -
  let ?C = "C_PP s"
  have same: "s\<lparr>Circle_D := P @ R\<rparr> = s"
    using assms(6) by simp
  have t0: "tight N Loop_test (int 0)" and ti: "tight N Counter (int i)"
    using assms(2,9) by (auto simp: tight_def)
  have b: "0 < length ?C" "i < length ?C"
    using assms(2,8,9) by auto
  have r0: "rdC A Loop_test 0 s = Some (?C ! 0)"
    using rdC_nat [OF assms(1) t0 b(1)] by simp
  have ri: "rdC A Counter (int i) s = Some (?C ! i)"
    by (rule rdC_nat [OF assms(1) ti b(2)])
  show ?thesis
  proof (cases "?C ! 0 < 1 \<and> ?C ! i - 1 \<ge> 0")
    case False
    then show ?thesis
      using same by (auto simp: final_swap_def r0 ri Let_def)
  next
    case True
    have iB: "i < B"
      using assms(2,4,9) by linarith
    have tg: "nat (?C ! i - 1) < B" "int (nat (?C ! i - 1)) = ?C ! i - 1"
      using True assms(10) by auto
    have "swap_P1 A (int i) (int (nat (?C ! i - 1))) s
            = Some (s\<lparr>Circle_D := swap_list P i (nat (?C ! i - 1)) @ R\<rparr>)"
      by (rule swap_P1_Some [where A = A and B = B, OF assms(3,6,7,5) iB tg(1)])
    then show ?thesis
      using True by (simp add: final_swap_def r0 ri Let_def tg(2))
  qed
qed

lemma advance_base_refines:
  assumes "admits A N" "3 \<le> N" "\<forall>t<B. A Swap (int t)" "N - 2 \<le> B" "B \<le> N"
    "Circle_D s = P @ R" "length P = N" "length (C_PP s) = N"
    "\<forall>j<N - 2. C_PP s ! j < int B"
  shows "advance_base A N s =
           Some (case spec_advance_base N (C_PP s) P of
                   (C', P') \<Rightarrow> s\<lparr>C_PP := C', Circle_D := P' @ R\<rparr>)"
proof -
  let ?i = "N - 3"
  let ?C1 = "(C_PP s)[?i := C_PP s ! ?i + 1]"
  let ?s1 = "s\<lparr>C_PP := ?C1\<rparr>"
  have i: "int N - 3 = int ?i" "?i < N" "?i < N - 2"
    using assms(2) by auto
  have inc: "incr_C A (int ?i) s = Some ?s1"
    by (rule incr_C_Some [OF assms(1,8,2)]) simp
  obtain i' C' P' where sc: "spec_carry ?i ?C1 P = (i', C', P')"
    by (metis prod_cases3)
  have ex: "i' \<le> ?i" "length C' = N" "length P' = N"
    using spec_carry_exit [OF sc] assms(7,8) by auto
  have "C_PP s ! ?i < int B"
    using assms(9) i(3) by blast
  then have top: "?C1 ! ?i \<le> int B"
    using assms(8) i(2) by simp
  have low: "\<forall>j<?i. ?C1 ! j < int B"
    using assms(9) by simp
  have bd: "C' ! i' \<le> int B"
    by (rule spec_carry_bound [OF sc _ top low]) (use assms(8) i(2) in simp)
  let ?s2 = "s\<lparr>C_PP := C', Circle_D := P' @ R\<rparr>"
  have "carry A (int ?i) ?s1 =
           Some (case spec_carry ?i (C_PP ?s1) P of
                   (i', C', P') \<Rightarrow> (int i', ?s1\<lparr>C_PP := C', Circle_D := P' @ R\<rparr>))"
  proof (rule carry_refines [OF assms(1-5)])
    show "Circle_D ?s1 = P @ R" using assms(6) by simp
    show "length P = N" by (rule assms(7))
    show "length (C_PP ?s1) = N" using assms(8) by simp
    show "?i \<le> N - 3" by simp
    show "C_PP ?s1 ! ?i \<le> int B"
      using top by simp
    show "\<forall>j<?i. C_PP ?s1 ! j < int B"
      using low by simp
  qed
  then have ca: "carry A (int ?i) ?s1 = Some (int i', ?s2)"
    using sc by simp
  let ?Q = "if C' ! 0 < 1
            then (let target = C' ! i' - 1
                  in if target \<ge> 0 then swap_list P' i' (nat target) else P')
            else P'"
  have "final_swap A (int i') ?s2 =
           Some (?s2\<lparr>Circle_D :=
                   (if C_PP ?s2 ! 0 < 1
                    then (let target = C_PP ?s2 ! i' - 1
                          in if target \<ge> 0 then swap_list P' i' (nat target) else P')
                    else P') @ R\<rparr>)"
    by (rule final_swap_Some [OF assms(1-5)]) (use ex bd in simp_all)
  then have fs: "final_swap A (int i') ?s2 = Some (s\<lparr>C_PP := C', Circle_D := ?Q @ R\<rparr>)"
    by simp
  have lQ: "length ?Q = N"
    using ex(3) by (simp add: swap_list_def Let_def)
  have tr: "tight N Restore (int (N - 1))"
    using assms(2) by (auto simp: tight_def)
  have n1: "int N - 1 = int (N - 1)"
    using assms(2) by auto
  have "wrD A Restore (int (N - 1)) (int N - 1) (s\<lparr>C_PP := C', Circle_D := ?Q @ R\<rparr>)
          = Some (s\<lparr>C_PP := C', Circle_D := (?Q @ R)[N - 1 := int N - 1]\<rparr>)"
    using wrD_nat [OF assms(1) tr, of "s\<lparr>C_PP := C', Circle_D := ?Q @ R\<rparr>" "int N - 1"] lQ assms(2)
    by simp
  moreover have "(?Q @ R)[N - 1 := int N - 1] = ?Q[N - 1 := int N - 1] @ R"
    using lQ assms(2) by (simp add: list_update_append)
  ultimately have wr: "wrD A Restore (int N - 1) (int N - 1) (s\<lparr>C_PP := C', Circle_D := ?Q @ R\<rparr>)
          = Some (s\<lparr>C_PP := C', Circle_D := ?Q[N - 1 := int N - 1] @ R\<rparr>)"
    by (simp only: n1)
  have "advance_base A N s = Some (s\<lparr>C_PP := C', Circle_D := ?Q[N - 1 := int N - 1] @ R\<rparr>)"
    by (simp add: advance_base_def Let_def i(1) inc ca fs wr del: of_nat_diff)
  moreover have "spec_advance_base N (C_PP s) P = (C', ?Q[N - 1 := int N - 1])"
    by (simp add: spec_advance_base_def Let_def sc)
  ultimately show ?thesis
    by simp
qed

lemma advance_base_tight:
  assumes "admits A N" "3 \<le> N" "Circle_D s = P @ R" "length P = N" "length (C_PP s) = N"
    "\<forall>j<N - 2. C_PP s ! j \<le> int j"
  shows "advance_base A N s =
           Some (case spec_advance_base N (C_PP s) P of
                   (C', P') \<Rightarrow> s\<lparr>C_PP := C', Circle_D := P' @ R\<rparr>)"
proof (rule advance_base_refines [OF assms(1,2) swap_window_tight [OF assms(1)] _ _ assms(3-5)])
  show "N - 2 \<le> N - 2" by simp
  show "N - 2 \<le> N" by simp
  show "\<forall>j<N - 2. C_PP s ! j < int (N - 2)"
  proof (intro allI impI)
    fix j assume "j < N - 2"
    then show "C_PP s ! j < int (N - 2)"
      using assms(6) by fastforce
  qed
qed

text \<open>
  Claim C4. On every state whose arrays have the declared sizes and whose counter digits
  \<open>C[j]\<close>, \<open>j \<le> N - 3\<close>, are below \<open>N\<close> (so that every swap target \<open>C[i] - 1\<close> the rule can
  name lies inside \<open>P\<close>; the digits may otherwise be anything: above their radix, negative,
  \<open>C[0] \<ge> 1\<close>), the base advance of the C program returns, and what it returns is what the
  rule of the specification computes from \<open>C\<close> and the first window \<open>P\<close>: the increment at
  \<open>N - 3\<close>; while \<open>C[i] > i\<close> and \<open>i > 0\<close> the swap of \<open>P[i]\<close> with \<open>P[C[i] - 1]\<close>, the reset
  of \<open>C[i]\<close>, the decrement of \<open>i\<close> and the increment of \<open>C[i]\<close>; the one more swap of \<open>P[i]\<close>
  with \<open>P[C[i] - 1]\<close> only when \<open>C[0] < 1\<close> and the target is not negative; and \<open>P[N - 1]\<close>
  forced to \<open>N - 1\<close> (on both paths, as line 113 stands after the \<^verbatim>\<open>if\<close>). The rest of
  \<^verbatim>\<open>Circle_D\<close> and \<^verbatim>\<open>total_perms\<close> are unchanged. The states of the run (\<open>C[j] \<le> j\<close>) are
  among these states. The three states checked after the theorem are outside the run, for
  \<open>N = 5\<close> and \<open>P = (10, 11, 12, 13, 14)\<close>: with \<open>C = (0, 0, 4, 0, 0)\<close> the carry swaps
  \<open>P[2]\<close> with \<open>P[4]\<close> and the last swap exchanges \<open>P[1]\<close> and \<open>P[0]\<close>; with
  \<open>C = (1, 0, 1, 0, 0)\<close> the test \<open>C[0] < 1\<close> withholds the last swap; with
  \<open>C = (0, 0, -1, 0, 0)\<close> the negative target withholds it.
\<close>

theorem advance_base_follows_rule:
  assumes "3 \<le> N" and "length (Circle_D s) = 3 * N" and "length (C_PP s) = N"
    and "\<forall>j<N - 2. C_PP s ! j < int N"
  shows "advance_base c_policy N s =
           Some (case spec_advance_base N (C_PP s) (take N (Circle_D s)) of
                   (C', P') \<Rightarrow> s\<lparr>C_PP := C', Circle_D := P' @ drop N (Circle_D s)\<rparr>)"
  by (rule advance_base_refines [OF admits_c_policy assms(1) swap_window_c_policy _ _ _ _ assms(3,4)])
     (use assms(1,2) in simp_all)

theorem advance_base_follows_rule_witness:
  "advance_base c_policy 5
     \<lparr>Circle_D = [10, 11, 12, 13, 14, 20, 21, 22, 23, 24, 30, 31, 32, 33, 34],
      C_PP = [0, 0, 4, 0, 0], total_perms = 40\<rparr>
   = Some \<lparr>Circle_D = [11, 10, 14, 13, 4, 20, 21, 22, 23, 24, 30, 31, 32, 33, 34],
           C_PP = [0, 1, 0, 0, 0], total_perms = 40\<rparr>
   \<and> advance_base c_policy 5
     \<lparr>Circle_D = [10, 11, 12, 13, 14, 20, 21, 22, 23, 24, 30, 31, 32, 33, 34],
      C_PP = [1, 0, 1, 0, 0], total_perms = 40\<rparr>
   = Some \<lparr>Circle_D = [10, 11, 12, 13, 4, 20, 21, 22, 23, 24, 30, 31, 32, 33, 34],
           C_PP = [1, 0, 2, 0, 0], total_perms = 40\<rparr>
   \<and> advance_base c_policy 5
     \<lparr>Circle_D = [10, 11, 12, 13, 14, 20, 21, 22, 23, 24, 30, 31, 32, 33, 34],
      C_PP = [0, 0, - 1, 0, 0], total_perms = 40\<rparr>
   = Some \<lparr>Circle_D = [10, 11, 12, 13, 4, 20, 21, 22, 23, 24, 30, 31, 32, 33, 34],
           C_PP = [0, 0, 0, 0, 0], total_perms = 40\<rparr>"
proof -
  let ?D = "[10, 11, 12, 13, 14, 20, 21, 22, 23, 24, 30, 31, 32, 33, 34] :: int list"
  let ?s1 = "\<lparr>Circle_D = ?D, C_PP = [0, 0, 4, 0, 0], total_perms = 40 :: 64 word\<rparr>"
  let ?s2 = "\<lparr>Circle_D = ?D, C_PP = [1, 0, 1, 0, 0], total_perms = 40 :: 64 word\<rparr>"
  let ?s3 = "\<lparr>Circle_D = ?D, C_PP = [0, 0, - 1, 0, 0], total_perms = 40 :: 64 word\<rparr>"
  have h1: "\<forall>j<5 - 2. C_PP ?s1 ! j < int 5"
    by (simp add: less_Suc_eq numeral_eq_Suc)
  have h2: "\<forall>j<5 - 2. C_PP ?s2 ! j < int 5"
    by (simp add: less_Suc_eq numeral_eq_Suc)
  have h3: "\<forall>j<5 - 2. C_PP ?s3 ! j < int 5"
    by (simp add: less_Suc_eq numeral_eq_Suc)
  have e1: "spec_advance_base 5 [0, 0, 4, 0, 0] [10, 11, 12, 13, 14]
              = ([0, 1, 0, 0, 0], [11, 10, 14, 13, 4])"
    by code_simp
  have e2: "spec_advance_base 5 [1, 0, 1, 0, 0] [10, 11, 12, 13, 14]
              = ([1, 0, 2, 0, 0], [10, 11, 12, 13, 4])"
    by code_simp
  have e3: "spec_advance_base 5 [0, 0, - 1, 0, 0] [10, 11, 12, 13, 14]
              = ([0, 0, 0, 0, 0], [10, 11, 12, 13, 4])"
    by code_simp
  show ?thesis
    using advance_base_follows_rule [of 5 ?s1, OF _ _ _ h1]
      advance_base_follows_rule [of 5 ?s2, OF _ _ _ h2]
      advance_base_follows_rule [of 5 ?s3, OF _ _ _ h3]
    by (simp add: e1 e2 e3)
qed

subsection \<open>The counter: digits and value\<close>

lemma cval_cong: "(\<forall>j<n. C ! j = C' ! j) \<Longrightarrow> cval C n = cval C' n"
  by (induction n) simp_all

lemma swap_list_same: "swap_list P i i = P"
  by (simp add: swap_list_def)

lemma length_swap_list: "length (swap_list P i j) = length P"
  by (simp add: swap_list_def)

text \<open>On digits within their bounds the carry loop only ever swaps an element with
  itself: it moves the counter and leaves \<open>P\<close> alone. The counter keeps its value.\<close>

lemma spec_carry_props:
  "i < length C \<Longrightarrow> 1 \<le> C ! i \<Longrightarrow> C ! i \<le> int i + 1
   \<Longrightarrow> \<forall>j<i. 0 \<le> C ! j \<and> C ! j \<le> int j
   \<Longrightarrow> \<exists>i' C'. (\<forall>P. spec_carry i C P = (i', C', P)) \<and> i' \<le> i \<and> length C' = length C
         \<and> (\<forall>j>i. C' ! j = C ! j)
         \<and> (\<forall>j\<le>i. j \<noteq> i' \<longrightarrow> 0 \<le> C' ! j \<and> C' ! j \<le> int j)
         \<and> 1 \<le> C' ! i' \<and> C' ! i' \<le> int i' + 1 \<and> (0 < i' \<longrightarrow> C' ! i' \<le> int i')
         \<and> cval C' (Suc i) = cval C (Suc i)"
proof (induction i arbitrary: C rule: less_induct)
  case (less i)
  show ?case
  proof (cases "C ! i > int i \<and> i > 0")
    case False
    have "\<forall>P. spec_carry i C P = (i, C, P)"
      using False by (simp add: spec_carry_stop)
    moreover have "\<forall>j\<le>i. j \<noteq> i \<longrightarrow> 0 \<le> C ! j \<and> C ! j \<le> int j"
      using less.prems(4) by auto
    moreover have "0 < i \<longrightarrow> C ! i \<le> int i"
      using False by auto
    ultimately show ?thesis
      using less.prems(2,3) by blast
  next
    case True
    then obtain m where m: "i = Suc m"
      by (cases i) auto
    have "C ! i = int i + 1"
      using True less.prems(3) by linarith
    then have c: "C ! Suc m = int (Suc m) + 1"
      using m by simp
    have cm: "0 \<le> C ! m" "C ! m \<le> int m"
      using less.prems(4) m by auto
    define C2 where "C2 = C[Suc m := 0, m := C ! m + 1]"
    have len2: "length C2 = length C"
      by (simp add: C2_def)
    have ml: "m < length C" "Suc m < length C"
      using less.prems(1) m by auto
    have n2: "C2 ! Suc m = 0" "C2 ! m = C ! m + 1"
      using ml by (simp_all add: C2_def nth_list_update)
    have o2: "C2 ! j = C ! j" if "j \<noteq> m" "j \<noteq> Suc m" for j
      using that by (simp add: C2_def)
    have step: "spec_carry i C P = spec_carry m C2 P" for P
    proof -
      have "nat (C ! i - 1) = i" using c m by simp
      moreover have "(C[i := 0]) ! (i - 1) = C ! m" using m by simp
      ultimately show ?thesis
        using spec_carry_step [of i C P] True m by (simp add: C2_def swap_list_same)
    qed
    have "\<exists>i' C'. (\<forall>P. spec_carry m C2 P = (i', C', P)) \<and> i' \<le> m \<and> length C' = length C2
         \<and> (\<forall>j>m. C' ! j = C2 ! j)
         \<and> (\<forall>j\<le>m. j \<noteq> i' \<longrightarrow> 0 \<le> C' ! j \<and> C' ! j \<le> int j)
         \<and> 1 \<le> C' ! i' \<and> C' ! i' \<le> int i' + 1 \<and> (0 < i' \<longrightarrow> C' ! i' \<le> int i')
         \<and> cval C' (Suc m) = cval C2 (Suc m)"
    proof (rule less.IH)
      show "m < i" using m by simp
      show "m < length C2" using ml len2 by simp
      show "1 \<le> C2 ! m" using n2 cm by simp
      show "C2 ! m \<le> int m + 1" using n2 cm by simp
      show "\<forall>j<m. 0 \<le> C2 ! j \<and> C2 ! j \<le> int j"
        using less.prems(4) m o2 by auto
    qed
    then obtain i' C' where r: "\<forall>P. spec_carry m C2 P = (i', C', P)" "i' \<le> m"
      "length C' = length C2" "\<forall>j>m. C' ! j = C2 ! j"
      "\<forall>j\<le>m. j \<noteq> i' \<longrightarrow> 0 \<le> C' ! j \<and> C' ! j \<le> int j"
      "1 \<le> C' ! i'" "C' ! i' \<le> int i' + 1" "0 < i' \<longrightarrow> C' ! i' \<le> int i'"
      "cval C' (Suc m) = cval C2 (Suc m)"
      by blast
    have above: "\<forall>j>i. C' ! j = C ! j"
      using r(4) o2 m by auto
    have ci: "C' ! Suc m = 0"
      using r(4) n2(1) by auto
    have within: "\<forall>j\<le>i. j \<noteq> i' \<longrightarrow> 0 \<le> C' ! j \<and> C' ! j \<le> int j"
    proof (intro allI impI)
      fix j assume j: "j \<le> i" "j \<noteq> i'"
      show "0 \<le> C' ! j \<and> C' ! j \<le> int j"
      proof (cases "j = Suc m")
        case True
        then show ?thesis using ci by simp
      next
        case False
        then have "j \<le> m" using j(1) m by simp
        then show ?thesis using r(5) j(2) by blast
      qed
    qed
    have "cval C2 m = cval C m"
      by (rule cval_cong) (use o2 in auto)
    then have "cval C2 (Suc m) = cval C (Suc m) + 1"
      using n2(2) by simp
    then have "cval C' (Suc (Suc m)) = (cval C (Suc m) + 1) * (int (Suc m) + 1)"
      using r(9) ci by simp
    also have "\<dots> = cval C (Suc (Suc m))"
      using c by (simp add: algebra_simps)
    finally have cv: "cval C' (Suc i) = cval C (Suc i)"
      using m by simp
    have "\<forall>P. spec_carry i C P = (i', C', P)"
      using step r(1) by simp
    moreover have "i' \<le> i" using r(2) m by simp
    moreover have "length C' = length C" using r(3) len2 by simp
    ultimately show ?thesis
      using above within r(6,7,8) cv by blast
  qed
qed

lemma cval_bounds:
  "\<forall>j<Suc n. 1 \<le> j \<longrightarrow> 0 \<le> C ! j \<and> C ! j \<le> int j
   \<Longrightarrow> C ! 0 * fact (Suc n) \<le> cval C (Suc n) \<and> cval C (Suc n) + 1 \<le> (C ! 0 + 1) * fact (Suc n)"
proof (induction n)
  case 0
  show ?case by simp
next
  case (Suc n)
  define a where "a = cval C (Suc n)"
  define f :: int where "f = fact (Suc n)"
  define r where "r = int (Suc n) + 1"
  define d where "d = C ! Suc n"
  have "\<forall>j<Suc n. 1 \<le> j \<longrightarrow> 0 \<le> C ! j \<and> C ! j \<le> int j"
    using Suc.prems by auto
  then have ih: "C ! 0 * f \<le> a" "a + 1 \<le> (C ! 0 + 1) * f"
    using Suc.IH by (simp_all add: a_def f_def)
  have d: "0 \<le> d" "d + 1 \<le> r"
    using Suc.prems [rule_format, of "Suc n"] by (simp_all add: d_def r_def)
  have r: "0 \<le> r"
    by (simp add: r_def)
  have v: "cval C (Suc (Suc n)) = a * r + d"
    by (simp add: a_def r_def d_def)
  have fa: "(fact (Suc (Suc n)) :: int) = r * f"
    by (simp add: r_def f_def algebra_simps)
  have "C ! 0 * f * r \<le> a * r"
    using ih(1) r by (rule mult_right_mono)
  then have lo: "C ! 0 * (r * f) \<le> a * r + d"
    using d(1) by (simp add: mult_ac)
  have "(a + 1) * r \<le> (C ! 0 + 1) * f * r"
    using ih(2) r by (rule mult_right_mono)
  then have "a * r + r \<le> (C ! 0 + 1) * (r * f)"
    by (simp add: algebra_simps)
  then have hi: "a * r + d + 1 \<le> (C ! 0 + 1) * (r * f)"
    using d(2) by linarith
  show ?case
    using lo hi by (simp only: v fa)
qed

lemma digits_ok_iff:
  "digits_ok N C \<longleftrightarrow>
     length C = N \<and> 0 \<le> C ! 0 \<and> C ! 0 \<le> 1 \<and> (\<forall>j<N. 1 \<le> j \<longrightarrow> 0 \<le> C ! j \<and> C ! j \<le> int j)"
  by (auto simp: digits_ok_def list_all_iff)

text \<open>The loop test reads the counter value: \<open>C[0] < 1\<close> exactly when the value is still
  below \<open>(N - 2)!\<close>.\<close>

lemma test_iff_cval:
  assumes "3 \<le> N" "digits_ok N C"
  shows "C ! 0 < 1 \<longleftrightarrow> cval C (N - 2) < fact (N - 2)"
proof -
  obtain n where n: "N - 2 = Suc n"
    using assms(1) by (cases "N - 2") auto
  have "\<forall>j<Suc n. 1 \<le> j \<longrightarrow> 0 \<le> C ! j \<and> C ! j \<le> int j"
    using assms(2) n by (auto simp: digits_ok_iff)
  then have b: "C ! 0 * fact (Suc n) \<le> cval C (Suc n)"
    "cval C (Suc n) + 1 \<le> (C ! 0 + 1) * fact (Suc n)"
    using cval_bounds [of n C] by blast+
  have c0: "C ! 0 = 0 \<or> C ! 0 = 1"
    using assms(2) by (auto simp: digits_ok_iff)
  have fp: "(0 :: int) < fact (Suc n)"
    by (rule fact_gt_zero)
  show ?thesis
    using c0 b fp unfolding n by auto
qed

lemma spec_advance_base_props:
  assumes "3 \<le> N" "length C = N" "\<forall>j<N. 0 \<le> C ! j \<and> C ! j \<le> int j"
  shows "\<exists>C' f. (\<forall>P. spec_advance_base N C P = (C', (f P)[N - 1 := int N - 1]))
           \<and> (f = (\<lambda>P. P) \<or> (\<exists>i t. i \<le> N - 3 \<and> t < i \<and> f = (\<lambda>P. swap_list P i t)))
           \<and> digits_ok N C' \<and> cval C' (N - 2) = cval C (N - 2) + 1"
proof -
  define i where "i = N - 3"
  define C1 where "C1 = C[i := C ! i + 1]"
  have i: "i < N" "Suc i = N - 2" "i < length C"
    using assms(1,2) by (auto simp: i_def)
  have ci: "0 \<le> C ! i" "C ! i \<le> int i"
    using assms(3) i(1) by auto
  have c1: "C1 ! i = C ! i + 1" "length C1 = N" "\<forall>j. j \<noteq> i \<longrightarrow> C1 ! j = C ! j"
    using i assms(2) by (simp_all add: C1_def)
  have "\<exists>i' C'. (\<forall>P. spec_carry i C1 P = (i', C', P)) \<and> i' \<le> i \<and> length C' = length C1
         \<and> (\<forall>j>i. C' ! j = C1 ! j)
         \<and> (\<forall>j\<le>i. j \<noteq> i' \<longrightarrow> 0 \<le> C' ! j \<and> C' ! j \<le> int j)
         \<and> 1 \<le> C' ! i' \<and> C' ! i' \<le> int i' + 1 \<and> (0 < i' \<longrightarrow> C' ! i' \<le> int i')
         \<and> cval C' (Suc i) = cval C1 (Suc i)"
  proof (rule spec_carry_props)
    show "i < length C1" using c1(2) i(1) by simp
    show "1 \<le> C1 ! i" using c1(1) ci by simp
    show "C1 ! i \<le> int i + 1" using c1(1) ci by simp
    show "\<forall>j<i. 0 \<le> C1 ! j \<and> C1 ! j \<le> int j"
      using c1(3) assms(3) i(1) by auto
  qed
  then obtain i' C' where r: "\<forall>P. spec_carry i C1 P = (i', C', P)" "i' \<le> i"
      "length C' = length C1" "\<forall>j>i. C' ! j = C1 ! j"
      "\<forall>j\<le>i. j \<noteq> i' \<longrightarrow> 0 \<le> C' ! j \<and> C' ! j \<le> int j"
      "1 \<le> C' ! i'" "C' ! i' \<le> int i' + 1" "0 < i' \<longrightarrow> C' ! i' \<le> int i'"
      "cval C' (Suc i) = cval C1 (Suc i)"
    by blast
  have "cval C1 i = cval C i"
    by (rule cval_cong) (use c1(3) in auto)
  then have "cval C1 (Suc i) = cval C (Suc i) + 1"
    using c1(1) by simp
  then have cv: "cval C' (N - 2) = cval C (N - 2) + 1"
    using r(9) i(2) by simp
  have rest: "0 \<le> C' ! j \<and> C' ! j \<le> int j" if "j < N" "j \<noteq> i'" for j
  proof (cases "j \<le> i")
    case True
    then show ?thesis using r(5) that(2) by blast
  next
    case False
    then have "C' ! j = C ! j"
      using r(4) c1(3) by auto
    then show ?thesis using assms(3) that(1) by auto
  qed
  define f where
    "f = (\<lambda>P. if C' ! 0 < 1
               then (let target = C' ! i' - 1
                     in if target \<ge> 0 then swap_list P i' (nat target) else P)
               else P)"
  have sab: "\<forall>P. spec_advance_base N C P = (C', (f P)[N - 1 := int N - 1])"
    using r(1) by (simp add: spec_advance_base_def Let_def f_def flip: i_def C1_def)
  show ?thesis
  proof (cases "i' = 0")
    case True
    then have c0: "1 \<le> C' ! 0" "C' ! 0 \<le> 1"
      using r(6,7) by auto
    then have "f = (\<lambda>P. P)"
      by (auto simp: f_def)
    moreover have "digits_ok N C'"
      using c0 rest True r(3) c1(2) by (auto simp: digits_ok_iff)
    ultimately show ?thesis
      using sab cv by (intro exI [of _ C'] exI [of _ f]) simp
  next
    case False
    then have c0: "C' ! 0 = 0"
      using rest [of 0] assms(1) by auto
    have ti: "0 \<le> C' ! i' - 1" "nat (C' ! i' - 1) < i'" "C' ! i' \<le> int i'"
      using r(6,8) False by auto
    then have "f = (\<lambda>P. swap_list P i' (nat (C' ! i' - 1)))"
      using c0 by (auto simp: f_def Let_def)
    moreover have "i' \<le> N - 3"
      using r(2) by (simp add: i_def)
    moreover have "digits_ok N C'"
    proof -
      have "0 \<le> C' ! j \<and> C' ! j \<le> int j" if "j < N" for j
        using rest [OF that] r(6) ti(3) by (cases "j = i'") auto
      then show ?thesis
        using c0 r(3) c1(2) by (auto simp: digits_ok_iff)
    qed
    ultimately show ?thesis
      using sab cv ti(2) by (intro exI [of _ C'] exI [of _ f]) blast
  qed
qed

subsection \<open>One turn of the loop\<close>

lemma body_Some:
  assumes "admits A N" "3 \<le> N" "length (Circle_D s) = 3 * N" "length (C_PP s) = N"
    "\<forall>j<N - 2. C_PP s ! j \<le> int j"
  shows "body A N s = Some (next_state N s)"
proof -
  let ?D = "outer_D N (Circle_D s)"
  let ?s1 = "s\<lparr>total_perms := total_perms s + of_nat (N * (N - 1)), Circle_D := ?D\<rparr>"
  have N1: "1 \<le> N" using assms(2) by simp
  have len: "length ?D = 3 * N"
    using assms(3) N1 by (rule length_outer_D)
  have ao: "advance_outer A N s = Some ?s1"
    by (rule advance_outer_Some [OF assms(1,3) N1])
  have "advance_base A N ?s1 =
           Some (case spec_advance_base N (C_PP ?s1) (take N ?D) of
                   (C', P') \<Rightarrow> ?s1\<lparr>C_PP := C', Circle_D := P' @ drop N ?D\<rparr>)"
    by (rule advance_base_tight [OF assms(1,2)]) (use assms(4,5) len in simp_all)
  then show ?thesis
    by (simp add: body_def ao next_state_def Let_def split: prod.splits)
qed

lemma body_noP3_Some:
  assumes "admits A N" "3 \<le> N" "length (Circle_D s) = 3 * N" "length (C_PP s) = N"
    "\<forall>j<N - 2. C_PP s ! j \<le> int j"
  shows "body_noP3 A N s = Some (next_state_noP3 N s)"
proof -
  let ?D = "outer2_D N (Circle_D s)"
  let ?s1 = "s\<lparr>total_perms := total_perms s + of_nat (N * (N - 1)), Circle_D := ?D\<rparr>"
  have N1: "1 \<le> N" using assms(2) by simp
  have len: "length ?D = 3 * N"
    using assms(3) N1 by (rule length_outer2_D)
  have ao: "advance_outer_noP3 A N s = Some ?s1"
    by (rule advance_outer_noP3_Some [OF assms(1,3) N1])
  have "advance_base A N ?s1 =
           Some (case spec_advance_base N (C_PP ?s1) (take N ?D) of
                   (C', P') \<Rightarrow> ?s1\<lparr>C_PP := C', Circle_D := P' @ drop N ?D\<rparr>)"
    by (rule advance_base_tight [OF assms(1,2)]) (use assms(4,5) len in simp_all)
  then show ?thesis
    by (simp add: body_noP3_def ao next_state_noP3_def Let_def split: prod.splits)
qed

lemma take_outer_D:
  assumes "length D = 3 * N" "2 \<le> N"
  shows "take (N - 1) (outer_D N D) = take (N - 1) D"
proof (rule nth_equalityI)
  show "length (take (N - 1) (outer_D N D)) = length (take (N - 1) D)"
    using assms by (simp add: length_outer_D)
  fix m assume "m < length (take (N - 1) (outer_D N D))"
  then have m: "m < N - 1" "m < 3 * N"
    using assms by (simp_all add: length_outer_D)
  then show "take (N - 1) (outer_D N D) ! m = take (N - 1) D ! m"
    using nth_outer_D [OF assms m(2)] by simp
qed

lemma take_outer2_D:
  assumes "length D = 3 * N" "2 \<le> N"
  shows "take (N - 1) (outer2_D N D) = take (N - 1) D"
proof (rule nth_equalityI)
  show "length (take (N - 1) (outer2_D N D)) = length (take (N - 1) D)"
    using assms by (simp add: length_outer2_D)
  fix m assume "m < length (take (N - 1) (outer2_D N D))"
  then have m: "m < N - 1" "m < 3 * N"
    using assms by (simp_all add: length_outer2_D)
  then show "take (N - 1) (outer2_D N D) ! m = take (N - 1) D ! m"
    using nth_outer2_D [OF assms m(2)] by simp
qed

text \<open>The two shapes the base advance has on \<open>P\<close> (nothing, or one swap below index
  \<open>N - 2\<close>), followed by the restore of the last element, look only at the first
  \<open>N - 1\<close> elements and permute them.\<close>

lemma shape_take:
  assumes "f = (\<lambda>P. P) \<or> (\<exists>i t. i \<le> N - 3 \<and> t < i \<and> f = (\<lambda>P. swap_list P i t))"
    "3 \<le> N" "length (P :: int list) = N"
  shows "length (f P) = N"
    and "take (N - 1) ((f P)[N - 1 := v]) = f (take (N - 1) P)"
    and "mset (f (take (N - 1) P)) = mset (take (N - 1) P)"
proof -
  show "length (f P) = N"
    using assms by (auto simp: length_swap_list)
  show "take (N - 1) ((f P)[N - 1 := v]) = f (take (N - 1) P)"
  proof -
    have "take (N - 1) ((f P)[N - 1 := v]) = take (N - 1) (f P)"
      by simp
    also have "\<dots> = f (take (N - 1) P)"
      using assms by (auto simp: swap_list_def take_update_swap)
    finally show ?thesis .
  qed
  show "mset (f (take (N - 1) P)) = mset (take (N - 1) P)"
  proof -
    have "mset (swap_list (take (N - 1) P) i t) = mset (take (N - 1) P)"
      if "i \<le> N - 3" "t < i" for i t
    proof -
      have "i < length (take (N - 1) P)" "t < length (take (N - 1) P)"
        using that assms(2,3) by auto
      then show ?thesis
        unfolding swap_list_def by (metis mset_swap)
    qed
    then show ?thesis
      using assms(1) by auto
  qed
qed

lemma next_state_props:
  assumes "3 \<le> N" "length (Circle_D s) = 3 * N" "length (C_PP s) = N"
    "\<forall>j<N. 0 \<le> C_PP s ! j \<and> C_PP s ! j \<le> int j"
  shows "\<exists>C' f. spec_advance_base N (C_PP s) (take N (Circle_D s))
                   = (C', (f (take N (Circle_D s)))[N - 1 := int N - 1])
           \<and> (f = (\<lambda>P. P) \<or> (\<exists>i t. i \<le> N - 3 \<and> t < i \<and> f = (\<lambda>P. swap_list P i t)))
           \<and> digits_ok N C' \<and> cval C' (N - 2) = cval (C_PP s) (N - 2) + 1
           \<and> next_state N s =
               s\<lparr>total_perms := total_perms s + of_nat (N * (N - 1)), C_PP := C',
                 Circle_D := (f (take N (outer_D N (Circle_D s))))[N - 1 := int N - 1]
                             @ drop N (outer_D N (Circle_D s))\<rparr>
           \<and> next_state_noP3 N s =
               s\<lparr>total_perms := total_perms s + of_nat (N * (N - 1)), C_PP := C',
                 Circle_D := (f (take N (outer2_D N (Circle_D s))))[N - 1 := int N - 1]
                             @ drop N (outer2_D N (Circle_D s))\<rparr>"
proof -
  obtain C' f where r: "(\<forall>P. spec_advance_base N (C_PP s) P = (C', (f P)[N - 1 := int N - 1]))
    \<and> (f = (\<lambda>P. P) \<or> (\<exists>i t. i \<le> N - 3 \<and> t < i \<and> f = (\<lambda>P. swap_list P i t)))
    \<and> digits_ok N C' \<and> cval C' (N - 2) = cval (C_PP s) (N - 2) + 1"
    using spec_advance_base_props [OF assms(1,3,4)] by (elim exE) (rule that)
  show ?thesis
    using r by (intro exI [of _ C'] exI [of _ f]) (simp add: next_state_def next_state_noP3_def Let_def)
qed

subsection \<open>The loop-head invariant\<close>

lemma cval_zero: "(\<forall>j<n. C ! j = 0) \<Longrightarrow> cval C n = 0"
  by (induction n) simp_all

lemma head_inv_init:
  assumes "3 \<le> N"
  shows "head_inv N 0 (init N)"
proof -
  have "cval (replicate N 0) (N - 2) = 0"
    by (rule cval_zero) simp
  moreover have "digits_ok N (replicate N 0)"
    using assms by (simp add: digits_ok_iff)
  moreover have "Circle_D (init N) ! (N - 1) = int N - 1"
    using assms by (simp add: init_D nth_append of_nat_diff)
  moreover have "take (N - 1) (Circle_D (init N)) = map int [0..<N - 1]"
    using assms by (simp add: init_D take_map)
  ultimately show ?thesis
    by (simp add: head_inv_def length_init_D init_C init_total)
qed

lemma digits_ok_test:
  "digits_ok N C \<Longrightarrow> C ! 0 < 1 \<Longrightarrow> 3 \<le> N \<Longrightarrow> \<forall>j<N. 0 \<le> C ! j \<and> C ! j \<le> int j"
  unfolding digits_ok_iff
proof (intro allI impI)
  fix j
  assume a: "length C = N \<and> 0 \<le> C ! 0 \<and> C ! 0 \<le> 1 \<and> (\<forall>j<N. 1 \<le> j \<longrightarrow> 0 \<le> C ! j \<and> C ! j \<le> int j)"
    "C ! 0 < 1" "j < N"
  show "0 \<le> C ! j \<and> C ! j \<le> int j"
  proof (cases "j = 0")
    case True
    then show ?thesis using a by auto
  next
    case False
    then have "1 \<le> j" by simp
    then show ?thesis using a by blast
  qed
qed

lemma shape_cong:
  assumes "f = (\<lambda>P. P) \<or> (\<exists>i t. i \<le> N - 3 \<and> t < i \<and> f = (\<lambda>P. swap_list P i t))"
    "3 \<le> N" "length (P :: int list) = N" "length P' = N" "take (N - 1) P = take (N - 1) P'"
  shows "(f P)[N - 1 := v] = (f P')[N - 1 := v]"
proof -
  let ?X = "(f P)[N - 1 := v]" and ?Y = "(f P')[N - 1 := v]"
  have l: "length ?X = N" "length ?Y = N"
    using shape_take(1) [OF assms(1,2)] assms(3,4) by simp_all
  have t: "take (N - 1) ?X = take (N - 1) ?Y"
    using shape_take(2) [OF assms(1,2)] assms(3,4,5) by simp
  have e: "?X ! (N - 1) = ?Y ! (N - 1)"
    using l assms(2) shape_take(1) [OF assms(1,2)] assms(3,4) by simp
  show ?thesis
  proof (rule nth_equalityI)
    show "length ?X = length ?Y"
      using l by simp
    fix m assume "m < length ?X"
    then have m: "m < N"
      using l by simp
    show "?X ! m = ?Y ! m"
    proof (cases "m < N - 1")
      case True
      then have "take (N - 1) ?X ! m = ?X ! m" "take (N - 1) ?Y ! m = ?Y ! m"
        by (rule nth_take)+
      then show ?thesis
        using t by simp
    next
      case False
      then have "m = N - 1"
        using m by simp
      then show ?thesis
        using e by simp
    qed
  qed
qed

lemma head_inv_D:
  "head_inv N k s \<Longrightarrow> length (Circle_D s) = 3 * N"
  and head_inv_C: "head_inv N k s \<Longrightarrow> length (C_PP s) = N"
  by (simp_all add: head_inv_def digits_ok_iff)

lemma head_inv_step:
  assumes "3 \<le> N" "head_inv N k s" "C_PP s ! 0 < 1"
  shows "head_inv N (Suc k) (next_state N s)"
    and "(C_PP (next_state N s), take N (Circle_D (next_state N s)))
           = spec_advance_base N (C_PP s) (take N (Circle_D s))"
proof -
  let ?D = "Circle_D s" and ?v = "int N - 1"
  let ?D1 = "outer_D N ?D"
  have lD: "length ?D = 3 * N" and lC: "length (C_PP s) = N"
    using assms(2) by (rule head_inv_D, rule head_inv_C)
  have dg: "\<forall>j<N. 0 \<le> C_PP s ! j \<and> C_PP s ! j \<le> int j"
    using assms by (intro digits_ok_test) (simp_all add: head_inv_def)
  have N1: "1 \<le> N" "2 \<le> N" using assms(1) by simp_all
  have lD1: "length ?D1 = 3 * N"
    using lD N1(1) by (rule length_outer_D)
  obtain C' f where r: "spec_advance_base N (C_PP s) (take N ?D) = (C', (f (take N ?D))[N - 1 := ?v])
           \<and> (f = (\<lambda>P. P) \<or> (\<exists>i t. i \<le> N - 3 \<and> t < i \<and> f = (\<lambda>P. swap_list P i t)))
           \<and> digits_ok N C' \<and> cval C' (N - 2) = cval (C_PP s) (N - 2) + 1
           \<and> next_state N s =
               s\<lparr>total_perms := total_perms s + of_nat (N * (N - 1)), C_PP := C',
                 Circle_D := (f (take N ?D1))[N - 1 := ?v] @ drop N ?D1\<rparr>
           \<and> next_state_noP3 N s =
               s\<lparr>total_perms := total_perms s + of_nat (N * (N - 1)), C_PP := C',
                 Circle_D := (f (take N (outer2_D N ?D)))[N - 1 := ?v] @ drop N (outer2_D N ?D)\<rparr>"
    using next_state_props [OF assms(1) lD lC dg] by (elim exE) (rule that)
  have sh: "f = (\<lambda>P. P) \<or> (\<exists>i t. i \<le> N - 3 \<and> t < i \<and> f = (\<lambda>P. swap_list P i t))"
    and r1: "spec_advance_base N (C_PP s) (take N ?D) = (C', (f (take N ?D))[N - 1 := ?v])"
    and dC: "digits_ok N C'" and cC: "cval C' (N - 2) = cval (C_PP s) (N - 2) + 1"
    and ns: "next_state N s =
               s\<lparr>total_perms := total_perms s + of_nat (N * (N - 1)), C_PP := C',
                 Circle_D := (f (take N ?D1))[N - 1 := ?v] @ drop N ?D1\<rparr>"
    using r by blast+
  let ?W = "(f (take N ?D1))[N - 1 := ?v]"
  have lt: "length (take N ?D1) = N" "length (take N ?D) = N"
    using lD lD1 by simp_all
  have lW: "length ?W = N"
    using shape_take(1) [OF sh assms(1) lt(1)] by simp
  have D': "Circle_D (next_state N s) = ?W @ drop N ?D1" and C': "C_PP (next_state N s) = C'"
    and T': "total_perms (next_state N s) = total_perms s + of_nat (N * (N - 1))"
    by (simp_all add: ns)
  have tk: "take (N - 1) (take N ?D1) = take (N - 1) (take N ?D)"
    using take_outer_D [OF lD N1(2)] by (simp add: min_def)
  have W: "?W = (f (take N ?D))[N - 1 := ?v]"
    by (rule shape_cong [OF sh assms(1) lt tk])
  have takeN: "take N (Circle_D (next_state N s)) = ?W"
    using lW by (simp add: D')
  have "spec_advance_base N (C_PP s) (take N ?D) = (C', ?W)"
    using r1 W by simp
  then show "(C_PP (next_state N s), take N (Circle_D (next_state N s)))
           = spec_advance_base N (C_PP s) (take N (Circle_D s))"
    by (simp only: takeN C')
  have "take (N - 1) (Circle_D (next_state N s)) = take (N - 1) ?W"
    using lW by (simp add: D')
  also have "\<dots> = f (take (N - 1) (take N ?D))"
    unfolding W by (rule shape_take(2) [OF sh assms(1) lt(2)])
  finally have "mset (take (N - 1) (Circle_D (next_state N s))) = mset (take (N - 1) (take N ?D))"
    using shape_take(3) [OF sh assms(1) lt(2)] by simp
  then have ms: "mset (take (N - 1) (Circle_D (next_state N s))) = mset (map int [0..<N - 1])"
    using assms(2) by (simp add: head_inv_def min_def)
  have last: "Circle_D (next_state N s) ! (N - 1) = ?v"
    using lW assms(1) shape_take(1) [OF sh assms(1) lt(1)] by (simp add: D' nth_append)
  have len: "length (Circle_D (next_state N s)) = 3 * N"
    using lW lD1 by (simp add: D')
  have cv: "cval (C_PP (next_state N s)) (N - 2) = int (Suc k)"
    using cC assms(2) by (simp add: C' head_inv_def)
  have tot: "total_perms (next_state N s) = of_nat (Suc k * (N * (N - 1)))"
    using assms(2) by (simp add: T' head_inv_def)
  show "head_inv N (Suc k) (next_state N s)"
    unfolding head_inv_def using len dC cv tot last ms by (simp add: C')
qed

subsection \<open>The loop\<close>

lemma rdC_test:
  assumes "admits A N" "length (C_PP s) = N" "3 \<le> N"
  shows "rdC A Loop_test 0 s = Some (C_PP s ! 0)"
proof -
  have "tight N Loop_test (int 0)"
    by (simp add: tight_def)
  moreover have "0 < length (C_PP s)"
    using assms(2,3) by simp
  ultimately have "rdC A Loop_test (int 0) s = Some (C_PP s ! 0)"
    by (rule rdC_nat [OF assms(1)])
  then show ?thesis
    by simp
qed

lemma pp_iter_add: "pp_iter N (m + n) cp = pp_iter N n (pp_iter N m cp)"
  by (induction m arbitrary: cp) simp_all

lemma heads_from:
  assumes "admits A N" "3 \<le> N"
  shows "head_inv N k s \<Longrightarrow> k + m \<le> fact (N - 2)
     \<Longrightarrow> loop_head A (body A N) m s = Some ((next_state N ^^ m) s)
         \<and> head_inv N (k + m) ((next_state N ^^ m) s)
         \<and> (C_PP ((next_state N ^^ m) s), take N (Circle_D ((next_state N ^^ m) s)))
             = pp_iter N m (C_PP s, take N (Circle_D s))"
proof (induction m arbitrary: k s)
  case 0
  then show ?case by simp
next
  case (Suc m)
  have dg: "digits_ok N (C_PP s)"
    using Suc.prems(1) by (simp add: head_inv_def)
  have "int k < fact (N - 2)"
    using Suc.prems(2) by (metis Suc_le_lessD add_Suc_right le_add1 le_less_trans of_nat_fact of_nat_less_iff)
  then have test: "C_PP s ! 0 < 1"
    using test_iff_cval [OF assms(2) dg] Suc.prems(1) by (simp add: head_inv_def)
  have bd: "\<forall>j<N. 0 \<le> C_PP s ! j \<and> C_PP s ! j \<le> int j"
    using dg test assms(2) by (rule digits_ok_test)
  have lC: "length (C_PP s) = N" and lD: "length (Circle_D s) = 3 * N"
    using Suc.prems(1) by (rule head_inv_C, rule head_inv_D)
  have rd: "rdC A Loop_test 0 s = Some (C_PP s ! 0)"
    by (rule rdC_test [OF assms(1) lC assms(2)])
  have b: "body A N s = Some (next_state N s)"
    by (rule body_Some [OF assms lD lC]) (use bd in auto)
  have st: "head_inv N (Suc k) (next_state N s)"
    "(C_PP (next_state N s), take N (Circle_D (next_state N s)))
           = spec_advance_base N (C_PP s) (take N (Circle_D s))"
    using head_inv_step [OF assms(2) Suc.prems(1) test] by blast+
  have ih: "loop_head A (body A N) m (next_state N s) = Some ((next_state N ^^ m) (next_state N s))
         \<and> head_inv N (Suc k + m) ((next_state N ^^ m) (next_state N s))
         \<and> (C_PP ((next_state N ^^ m) (next_state N s)),
             take N (Circle_D ((next_state N ^^ m) (next_state N s))))
             = pp_iter N m (C_PP (next_state N s), take N (Circle_D (next_state N s)))"
    by (rule Suc.IH [OF st(1)]) (use Suc.prems(2) in simp)
  have f: "(next_state N ^^ Suc m) s = (next_state N ^^ m) (next_state N s)"
    by (simp add: funpow_swap1)
  show ?case
    unfolding f using ih rd test b st(2) by simp
qed

lemma while_loop_head:
  "loop_head A b m s = Some s' \<Longrightarrow> while_loop A b s = while_loop A b s'"
proof (induction m arbitrary: s)
  case 0
  then show ?case by simp
next
  case (Suc m)
  then obtain c0 s1 where h: "rdC A Loop_test 0 s = Some c0" "c0 < 1" "b s = Some s1"
    "loop_head A b m s1 = Some s'"
    by (auto split: bind_splits if_splits)
  have "while_loop A b s = while_loop A b s1"
    using h(1-3) by (subst while_loop.simps) simp
  then show ?case
    using Suc.IH [OF h(4)] by simp
qed

lemma loop_head_None_after:
  "loop_head A b m s = Some s' \<Longrightarrow> rdC A Loop_test 0 s' = Some c \<Longrightarrow> \<not> c < 1 \<Longrightarrow> m < n
   \<Longrightarrow> loop_head A b n s = None"
proof (induction m arbitrary: s n)
  case 0
  then obtain n' where "n = Suc n'"
    by (cases n) auto
  then show ?case
    using 0 by simp
next
  case (Suc m)
  then obtain c0 s1 where h: "rdC A Loop_test 0 s = Some c0" "c0 < 1" "b s = Some s1"
    "loop_head A b m s1 = Some s'"
    by (auto split: bind_splits if_splits)
  obtain n' where n: "n = Suc n'" "m < n'"
    using Suc.prems(4) by (cases n) auto
  have "loop_head A b n' s1 = None"
    by (rule Suc.IH [OF h(4) Suc.prems(2,3) n(2)])
  then show ?case
    using h(1-3) n(1) by simp
qed

text \<open>The run: \<open>(N - 2)!\<close> turns of the loop, then the test fails with \<open>C[0] = 1\<close>. The
  final state does not depend on the policy, as long as it admits the tight windows.\<close>

lemma run_result:
  assumes "admits A N" "3 \<le> N"
  shows "head A N (fact (N - 2)) = Some ((next_state N ^^ fact (N - 2)) (init N))"
    and "run A N = Some ((next_state N ^^ fact (N - 2)) (init N))"
    and "head_inv N (fact (N - 2)) ((next_state N ^^ fact (N - 2)) (init N))"
    and "C_PP ((next_state N ^^ fact (N - 2)) (init N)) ! 0 = 1"
proof -
  let ?F = "fact (N - 2) :: nat"
  let ?s = "(next_state N ^^ ?F) (init N)"
  have h: "loop_head A (body A N) ?F (init N) = Some ?s" "head_inv N (0 + ?F) ?s"
    using heads_from [OF assms head_inv_init [OF assms(2)], of ?F] by simp_all
  show "head A N ?F = Some ?s"
    using h(1) by (simp add: head_def)
  show hi: "head_inv N ?F ?s"
    using h(2) by simp
  have dg: "digits_ok N (C_PP ?s)" and cv: "cval (C_PP ?s) (N - 2) = int ?F"
    using hi by (simp_all add: head_inv_def)
  have "\<not> C_PP ?s ! 0 < 1"
    using test_iff_cval [OF assms(2) dg] cv by simp
  then show c1: "C_PP ?s ! 0 = 1"
    using dg by (simp add: digits_ok_iff)
  have rd: "rdC A Loop_test 0 ?s = Some 1"
    using rdC_test [OF assms(1) head_inv_C [OF hi] assms(2)] c1 by simp
  have "while_loop A (body A N) ?s = Some ?s"
    using rd by (subst while_loop.simps) simp
  then show "run A N = Some ?s"
    using while_loop_head [OF h(1)] by (simp add: run_def main_loop_def)
qed

lemma head_cases:
  assumes "admits A N" "3 \<le> N"
  shows "k \<le> fact (N - 2) \<Longrightarrow> head A N k = Some ((next_state N ^^ k) (init N))"
    and "k \<le> fact (N - 2) \<Longrightarrow> head_inv N k ((next_state N ^^ k) (init N))"
    and "k \<le> fact (N - 2) \<Longrightarrow>
           (C_PP ((next_state N ^^ k) (init N)), P1 N ((next_state N ^^ k) (init N)))
             = pp_iter N k (replicate N 0, map int [0..<N])"
    and "fact (N - 2) < k \<Longrightarrow> head A N k = None"
proof -
  have P: "take N (Circle_D (init N)) = map int [0..<N]"
    by (simp add: init_D)
  show "head A N k = Some ((next_state N ^^ k) (init N))" if "k \<le> fact (N - 2)"
    using heads_from [OF assms head_inv_init [OF assms(2)], of k] that by (simp add: head_def)
  show "head_inv N k ((next_state N ^^ k) (init N))" if "k \<le> fact (N - 2)"
    using heads_from [OF assms head_inv_init [OF assms(2)], of k] that by simp
  show "(C_PP ((next_state N ^^ k) (init N)), P1 N ((next_state N ^^ k) (init N)))
             = pp_iter N k (replicate N 0, map int [0..<N])" if "k \<le> fact (N - 2)"
    using heads_from [OF assms head_inv_init [OF assms(2)], of k] that
    by (simp add: P1_def P init_C)
  show "head A N k = None" if "fact (N - 2) < k"
  proof -
    let ?s = "(next_state N ^^ fact (N - 2)) (init N)"
    have "rdC A Loop_test 0 ?s = Some 1"
      using rdC_test [OF assms(1) head_inv_C [OF run_result(3) [OF assms]] assms(2)]
        run_result(4) [OF assms] by simp
    then show ?thesis
      unfolding head_def
      using loop_head_None_after [OF run_result(1) [OF assms, unfolded head_def] _ _ that]
      by simp
  qed
qed

lemma head_Some:
  assumes "admits A N" "3 \<le> N" "head A N k = Some s"
  shows "k \<le> fact (N - 2)" and "s = (next_state N ^^ k) (init N)" and "head_inv N k s"
    and "(C_PP s, P1 N s) = pp_iter N k (replicate N 0, map int [0..<N])"
proof -
  show k: "k \<le> fact (N - 2)"
    using head_cases(4) [OF assms(1,2), of k] assms(3) by (cases "k \<le> fact (N - 2)") auto
  show s: "s = (next_state N ^^ k) (init N)"
    using head_cases(1) [OF assms(1,2) k] assms(3) by simp
  show "head_inv N k s"
    unfolding s by (rule head_cases(2) [OF assms(1,2) k])
  show "(C_PP s, P1 N s) = pp_iter N k (replicate N 0, map int [0..<N])"
    unfolding s by (rule head_cases(3) [OF assms(1,2) k])
qed

subsection \<open>Termination, the counter invariant and memory safety\<close>

lemma fact_split: "2 \<le> N \<Longrightarrow> fact (N - 2) * (N * (N - 1)) = (fact N :: nat)"
proof -
  assume "2 \<le> N"
  then obtain m where "N = Suc (Suc m)"
    by (metis One_nat_def Suc_1 Suc_le_D Suc_le_mono)
  then show ?thesis
    by (simp add: algebra_simps)
qed

lemma run_count:
  assumes "admits A N" "3 \<le> N"
  shows "\<exists>s. run A N = Some s \<and> head A N (fact (N - 2)) = Some s
            \<and> total_perms s = of_nat (fact N)"
proof -
  let ?s = "(next_state N ^^ fact (N - 2)) (init N)"
  have "total_perms ?s = of_nat (fact (N - 2) * (N * (N - 1)))"
    using run_result(3) [OF assms] by (simp add: head_inv_def)
  moreover have "fact (N - 2) * (N * (N - 1)) = (fact N :: nat)"
    by (rule fact_split) (use assms(2) in simp)
  ultimately have "total_perms ?s = of_nat (fact N)"
    by (simp only:)
  then show ?thesis
    using run_result(1,2) [OF assms] by blast
qed

lemma head_test:
  assumes "admits A N" "3 \<le> N" "head A N k = Some s"
  shows "C_PP s ! 0 < 1 \<longleftrightarrow> k < fact (N - 2)" and "C_PP s ! 0 = 0 \<or> C_PP s ! 0 = 1"
proof -
  have hi: "head_inv N k s"
    by (rule head_Some(3) [OF assms])
  then have dg: "digits_ok N (C_PP s)" and cv: "cval (C_PP s) (N - 2) = int k"
    by (simp_all add: head_inv_def)
  have "int k < fact (N - 2) \<longleftrightarrow> k < fact (N - 2)"
    by (metis of_nat_fact of_nat_less_iff)
  then show "C_PP s ! 0 < 1 \<longleftrightarrow> k < fact (N - 2)"
    using test_iff_cval [OF assms(2) dg] cv by simp
  show "C_PP s ! 0 = 0 \<or> C_PP s ! 0 = 1"
    using dg by (auto simp: digits_ok_iff)
qed

text \<open>
  Claim C2. For every \<open>N \<ge> 3\<close> the program returns: the loop runs \<open>(N - 2)!\<close> times and
  leaves with \<open>C[0] = 1\<close>. The loop has one exit, the test \<open>C[0] < 1\<close>; at every loop
  head the program reaches, the test passes exactly when fewer than \<open>(N - 2)!\<close> turns
  have run, and \<open>C[0]\<close> is 0 or 1 there, never larger.
\<close>

theorem loop_terminates:
  assumes "3 \<le> N"
  shows "\<exists>s. run c_policy N = Some s \<and> C_PP s ! 0 = 1
            \<and> head c_policy N (fact (N - 2)) = Some s
            \<and> (\<forall>k s'. head c_policy N k = Some s' \<longrightarrow>
                  (C_PP s' ! 0 < 1 \<longleftrightarrow> k < fact (N - 2))
                  \<and> (C_PP s' ! 0 = 0 \<or> C_PP s' ! 0 = 1))"
proof -
  let ?s = "(next_state N ^^ fact (N - 2)) (init N)"
  have "run c_policy N = Some ?s" "C_PP ?s ! 0 = 1" "head c_policy N (fact (N - 2)) = Some ?s"
    using run_result [OF admits_c_policy assms] by simp_all
  moreover have "\<forall>k s'. head c_policy N k = Some s' \<longrightarrow>
                  (C_PP s' ! 0 < 1 \<longleftrightarrow> k < fact (N - 2))
                  \<and> (C_PP s' ! 0 = 0 \<or> C_PP s' ! 0 = 1)"
    using head_test [OF admits_c_policy assms] by blast
  ultimately show ?thesis
    by blast
qed

theorem loop_terminates_witness:
  "(3 :: nat) \<le> 14
   \<and> (\<exists>s. run c_policy 14 = Some s \<and> C_PP s ! 0 = 1 \<and> head c_policy 14 479001600 = Some s)"
proof -
  have f: "fact (14 - 2) = (479001600 :: nat)"
    by (simp add: fact_numeral)
  show ?thesis
    using loop_terminates [of 14] unfolding f by auto
qed

text \<open>
  Claim C6. At every loop head of the run: when the loop goes on (the start of an outer
  iteration, which is when fewer than \<open>(N - 2)!\<close> turns have run), every entry of
  \<^verbatim>\<open>C_PP\<close> satisfies \<open>0 \<le> C[i] \<le> i\<close>; otherwise the head is the last one, after exactly
  \<open>(N - 2)!\<close> turns, \<open>C[0]\<close> is 1, the program returns this state, and the other entries
  are still within their bounds.
\<close>

theorem counter_invariant:
  assumes "3 \<le> N" and "head c_policy N k = Some s"
  shows "(C_PP s ! 0 < 1 \<longleftrightarrow> k < fact (N - 2))
       \<and> (k < fact (N - 2) \<longrightarrow> (\<forall>i<length (C_PP s). 0 \<le> C_PP s ! i \<and> C_PP s ! i \<le> int i))
       \<and> (\<not> k < fact (N - 2) \<longrightarrow> k = fact (N - 2) \<and> C_PP s ! 0 = 1 \<and> run c_policy N = Some s
             \<and> (\<forall>i<length (C_PP s). 1 \<le> i \<longrightarrow> 0 \<le> C_PP s ! i \<and> C_PP s ! i \<le> int i))"
proof -
  note A = admits_c_policy [of N]
  have hi: "head_inv N k s" and kF: "k \<le> fact (N - 2)"
    and s: "s = (next_state N ^^ k) (init N)"
    using head_Some [OF A assms] by blast+
  have dg: "digits_ok N (C_PP s)"
    using hi by (simp add: head_inv_def)
  have t: "C_PP s ! 0 < 1 \<longleftrightarrow> k < fact (N - 2)"
    by (rule head_test(1) [OF A assms])
  have lC: "length (C_PP s) = N"
    by (rule head_inv_C [OF hi])
  have 1: "\<forall>i<length (C_PP s). 0 \<le> C_PP s ! i \<and> C_PP s ! i \<le> int i" if "k < fact (N - 2)"
    using digits_ok_test [OF dg _ assms(1)] t that lC by simp
  have 2: "k = fact (N - 2) \<and> C_PP s ! 0 = 1 \<and> run c_policy N = Some s
             \<and> (\<forall>i<length (C_PP s). 1 \<le> i \<longrightarrow> 0 \<le> C_PP s ! i \<and> C_PP s ! i \<le> int i)"
    if "\<not> k < fact (N - 2)"
  proof -
    have k: "k = fact (N - 2)"
      using that kF by simp
    then have "run c_policy N = Some s"
      using run_result(2) [OF A assms(1)] s by simp
    moreover have "C_PP s ! 0 = 1"
      using t that head_test(2) [OF A assms] by auto
    ultimately show ?thesis
      using k dg lC by (simp add: digits_ok_iff)
  qed
  show ?thesis
    using t 1 2 by blast
qed

theorem counter_invariant_witness:
  "head c_policy 5 3 = Some ((next_state 5 ^^ 3) (init 5))
   \<and> C_PP ((next_state 5 ^^ 3) (init 5)) ! 0 < 1
   \<and> list_all (\<lambda>i. 0 \<le> C_PP ((next_state 5 ^^ 3) (init 5)) ! i
                    \<and> C_PP ((next_state 5 ^^ 3) (init 5)) ! i \<le> int i)
        [0..<length (C_PP ((next_state 5 ^^ 3) (init 5)))]"
proof -
  have h: "head c_policy 5 3 = Some ((next_state 5 ^^ 3) (init 5))"
    by (rule head_cases(1) [OF admits_c_policy]) (simp_all add: fact_numeral)
  show ?thesis
    using counter_invariant [OF _ h] h by (simp add: list_all_iff fact_numeral)
qed

text \<open>
  Claim C8. For every \<open>N \<ge> 3\<close> the program run under the policy \<open>tight N\<close> returns, and
  returns the state the C program returns; the two agree at every loop head. Under
  \<open>tight N\<close> an access fails unless its index lies in the window of its site: \<^verbatim>\<open>C_PP\<close> is
  only touched at \<open>0, ..., N - 3\<close> (the carry loop's \<open>i\<close> and the loop test's 0), both
  indices of every swap lie in \<open>0, ..., N - 3\<close>, the burst only touches \<^verbatim>\<open>Circle_D\<close> at
  \<open>N - 1, ..., 2 * N - 2\<close>, the copies read \<open>0, ..., N - 2\<close> and write their windows, the
  restore writes \<open>N - 1\<close>. So no access of the loop is out of bounds.
\<close>

theorem accesses_in_bounds:
  assumes "3 \<le> N"
  shows "\<exists>s. run (tight N) N = Some s \<and> run c_policy N = Some s
            \<and> (\<forall>k. head (tight N) N k = head c_policy N k)"
proof -
  let ?s = "(next_state N ^^ fact (N - 2)) (init N)"
  have "run (tight N) N = Some ?s" "run c_policy N = Some ?s"
    using run_result(2) [OF admits_tight assms] run_result(2) [OF admits_c_policy assms]
    by simp_all
  moreover have "head (tight N) N k = head c_policy N k" for k
  proof (cases "k \<le> fact (N - 2)")
    case True
    then show ?thesis
      using head_cases(1) [OF admits_tight assms] head_cases(1) [OF admits_c_policy assms]
      by simp
  next
    case False
    then show ?thesis
      using head_cases(4) [OF admits_tight assms] head_cases(4) [OF admits_c_policy assms]
      by simp
  qed
  ultimately show ?thesis
    by blast
qed

theorem accesses_in_bounds_witness:
  "(3 :: nat) \<le> 14 \<and> (\<exists>s. run (tight 14) 14 = Some s \<and> run c_policy 14 = Some s)"
  using accesses_in_bounds [of 14] by auto

text \<open>For \<open>N \<le> 20\<close> (the source has \<open>N = 14\<close>) the 64-bit counter never wraps: at the
  \<open>k\<close>-th loop head it holds exactly \<open>k * N * (N - 1)\<close>.\<close>

lemma total_perms_at_head:
  assumes "admits A N" "3 \<le> N" "N \<le> 20" "head A N k = Some s"
  shows "unat (total_perms s) = k * (N * (N - 1))"
proof -
  have k: "k \<le> fact (N - 2)" and hi: "head_inv N k s"
    using head_Some [OF assms(1,2,4)] by blast+
  have "k * (N * (N - 1)) \<le> fact (N - 2) * (N * (N - 1))"
    using k by (rule mult_le_mono1)
  also have "\<dots> = fact N"
    by (rule fact_split) (use assms(2) in simp)
  also have "\<dots> \<le> (fact 20 :: nat)"
    using assms(3) by (rule fact_mono)
  also have "\<dots> < 2 ^ 64"
    by (simp add: fact_numeral)
  finally have lt: "k * (N * (N - 1)) < 2 ^ LENGTH(64)"
    by simp
  have "unat (of_nat (k * (N * (N - 1))) :: 64 word) = k * (N * (N - 1)) mod 2 ^ LENGTH(64)"
    by (rule unat_of_nat)
  then have "unat (of_nat (k * (N * (N - 1))) :: 64 word) = k * (N * (N - 1))"
    using lt by (simp only: mod_less)
  moreover have "total_perms s = of_nat (k * (N * (N - 1)))"
    using hi unfolding head_inv_def by blast
  ultimately show ?thesis
    by (simp only:)
qed

subsection \<open>The three windows\<close>

lemma take_drop_eqI:
  assumes "a + n \<le> length xs" "length ys = n" "\<And>m. m < n \<Longrightarrow> xs ! (a + m) = ys ! m"
  shows "take n (drop a xs) = ys"
  using assms by (auto intro!: nth_equalityI)

lemma windows_mirror_D:
  assumes "length D = 3 * N" "2 \<le> N"
  shows "take N (mirror_D N D) = take N D"
    and "take (N - 1) (drop N (mirror_D N D)) = take (N - 1) D"
    and "take (N - 1) (drop (N + (N - 1)) (mirror_D N D)) = take (N - 1) D"
proof -
  have N1: "1 \<le> N" using assms(2) by simp
  have len: "length (mirror_D N D) = 3 * N"
    using assms(1) N1 by (rule length_mirror_D)
  have "take N (drop 0 (mirror_D N D)) = take N D"
  proof (rule take_drop_eqI)
    fix m assume m: "m < N"
    then have b: "m < 3 * N" and c: "\<not> (N \<le> m \<and> m < 2 * N - 1)"
      "\<not> (2 * N - 1 \<le> m \<and> m < 3 * N - 2)"
      by linarith+
    have "mirror_D N D ! m = D ! m"
      using nth_mirror_D [OF assms(1) N1 b] c by (simp only: simp_thms if_False)
    then show "mirror_D N D ! (0 + m) = take N D ! m"
      using m by simp
  qed (use len assms in simp_all)
  then show "take N (mirror_D N D) = take N D"
    by simp
  show "take (N - 1) (drop N (mirror_D N D)) = take (N - 1) D"
  proof (rule take_drop_eqI)
    fix m assume m: "m < N - 1"
    then have b: "N + m < 3 * N" and c: "N \<le> N + m \<and> N + m < 2 * N - 1"
      by linarith+
    have "mirror_D N D ! (N + m) = D ! (N + m - N)"
      using nth_mirror_D [OF assms(1) N1 b] c by (simp only: simp_thms if_True)
    then show "mirror_D N D ! (N + m) = take (N - 1) D ! m"
      using m by simp
  qed (use len assms in simp_all)
  show "take (N - 1) (drop (N + (N - 1)) (mirror_D N D)) = take (N - 1) D"
  proof (rule take_drop_eqI)
    fix m assume m: "m < N - 1"
    then have b: "N + (N - 1) + m < 3 * N"
      and c: "\<not> (N \<le> N + (N - 1) + m \<and> N + (N - 1) + m < 2 * N - 1)"
      "2 * N - 1 \<le> N + (N - 1) + m \<and> N + (N - 1) + m < 3 * N - 2"
      and d: "N + (N - 1) + m - (2 * N - 1) = m"
      by linarith+
    have "mirror_D N D ! (N + (N - 1) + m) = D ! m"
      using nth_mirror_D [OF assms(1) N1 b] c by (simp only: simp_thms if_True if_False d)
    then show "mirror_D N D ! (N + (N - 1) + m) = take (N - 1) D ! m"
      using m by simp
  qed (use len assms in simp_all)
qed

lemma windows_outer_D:
  assumes "length D = 3 * N" "2 \<le> N"
  shows "outer_D N D ! (N - 1) = D ! 0"
    and "take (N - 1) (drop N (outer_D N D)) = tl (take (N - 1) D) @ [int N - 1]"
    and "take (N - 1) (drop (N + (N - 1)) (outer_D N D)) = take (N - 1) D"
proof -
  have N1: "1 \<le> N" using assms(2) by simp
  have len: "length (outer_D N D) = 3 * N"
    using assms(1) N1 by (rule length_outer_D)
  show "outer_D N D ! (N - 1) = D ! 0"
  proof -
    have b: "N - 1 < 3 * N" and c: "\<not> N - 1 < N - 1" "N - 1 < 2 * N - 2"
      and d: "N - 1 - (N - 1) = 0"
      using assms(2) by linarith+
    show ?thesis
      using nth_outer_D [OF assms b] c by (simp only: simp_thms if_True if_False d)
  qed
  show "take (N - 1) (drop N (outer_D N D)) = tl (take (N - 1) D) @ [int N - 1]"
  proof (rule take_drop_eqI)
    fix m assume m: "m < N - 1"
    show "outer_D N D ! (N + m) = (tl (take (N - 1) D) @ [int N - 1]) ! m"
    proof (cases "m < N - 2")
      case True
      then have b: "N + m < 3 * N" and c: "\<not> N + m < N - 1" "N + m < 2 * N - 2"
        and d: "N + m - (N - 1) = Suc m" and e: "Suc m < N - 1"
        by linarith+
      have l: "m < length (tl (take (N - 1) D))"
        using True assms by simp
      have "outer_D N D ! (N + m) = D ! Suc m"
        using nth_outer_D [OF assms b] c by (simp only: simp_thms if_True if_False d)
      moreover have "(tl (take (N - 1) D) @ [int N - 1]) ! m = D ! Suc m"
        using l e by (simp add: nth_append nth_tl)
      ultimately show ?thesis
        by simp
    next
      case False
      then have e: "m = N - 2"
        using m by linarith
      then have b: "N + m < 3 * N" and c: "\<not> N + m < N - 1" "\<not> N + m < 2 * N - 2"
        "N + m = 2 * N - 2"
        using assms(2) by linarith+
      have l: "length (tl (take (N - 1) D)) = m"
        using e assms by simp
      have "outer_D N D ! (N + m) = int N - 1"
        using nth_outer_D [OF assms b] c by (simp only: simp_thms if_True if_False)
      moreover have "(tl (take (N - 1) D) @ [int N - 1]) ! m = int N - 1"
        using l by (metis nth_append_length)
      ultimately show ?thesis
        by simp
    qed
  qed (use len assms in simp_all)
  show "take (N - 1) (drop (N + (N - 1)) (outer_D N D)) = take (N - 1) D"
  proof (rule take_drop_eqI)
    fix m assume m: "m < N - 1"
    then have b: "N + (N - 1) + m < 3 * N" and c: "\<not> N + (N - 1) + m < N - 1"
      "\<not> N + (N - 1) + m < 2 * N - 2" "N + (N - 1) + m \<noteq> 2 * N - 2"
      "N + (N - 1) + m < 3 * N - 2" and d: "N + (N - 1) + m - (2 * N - 1) = m"
      by linarith+
    have "outer_D N D ! (N + (N - 1) + m) = D ! m"
      using nth_outer_D [OF assms b] c by (simp only: simp_thms if_True if_False d)
    then show "outer_D N D ! (N + (N - 1) + m) = take (N - 1) D ! m"
      using m by simp
  qed (use len assms in simp_all)
qed

text \<open>What the synchronisation and the burst make of the windows, on any buffer of the
  declared size.\<close>

lemma windows_after_outer:
  assumes "admits A N" "length (Circle_D s) = 3 * N" "2 \<le> N"
  shows "\<exists>s2 s3 s'. sync_P2 A N s = Some s2 \<and> sync_P3 A N s2 = Some s3
            \<and> burst A N 0 s3 = Some s' \<and> advance_outer A N s = Some s'
            \<and> P1 N s3 = P1 N s \<and> P2 N s3 = take (N - 1) (P1 N s) \<and> P3 N s3 = take (N - 1) (P1 N s)
            \<and> take (N - 1) (P1 N s') = take (N - 1) (P1 N s)
            \<and> P1 N s' ! (N - 1) = P1 N s ! 0
            \<and> P2 N s' = tl (take (N - 1) (P1 N s)) @ [int N - 1]
            \<and> P3 N s' = take (N - 1) (P1 N s)"
proof -
  let ?D = "Circle_D s"
  let ?s2 = "s\<lparr>Circle_D := mirror2_D N ?D\<rparr>"
  let ?s3 = "s\<lparr>Circle_D := mirror_D N ?D\<rparr>"
  let ?s' = "s\<lparr>total_perms := total_perms s + of_nat (N * (N - 1)), Circle_D := outer_D N ?D\<rparr>"
  have N1: "1 \<le> N" using assms(3) by simp
  have tk: "take (N - 1) (take N ?D) = take (N - 1) ?D"
    by (simp add: min_def)
  have "burst A N (int 0) ?s3 =
          Some (?s3\<lparr>total_perms := total_perms ?s3 + of_nat (N * (N - 1 - 0)),
                     Circle_D := burst_D N 0 (Circle_D ?s3)\<rparr>)"
    by (rule burst_Some [OF assms(1)]) (use assms N1 in \<open>simp_all add: length_mirror_D\<close>)
  then have b: "burst A N 0 ?s3 = Some ?s'"
    by (simp add: outer_D_def)
  have lo: "length (outer_D N ?D) = 3 * N"
    using assms(2) N1 by (rule length_outer_D)
  have "sync_P2 A N s = Some ?s2" "sync_P3 A N ?s2 = Some ?s3" "advance_outer A N s = Some ?s'"
    using sync_P2_Some [OF assms(1,2) N1] sync_P3_Some [OF assms(1,2) N1]
      advance_outer_Some [OF assms(1,2) N1] by simp_all
  moreover have "P1 N ?s3 = P1 N s" "P2 N ?s3 = take (N - 1) (P1 N s)"
    "P3 N ?s3 = take (N - 1) (P1 N s)"
    using windows_mirror_D [OF assms(2,3)] by (simp_all add: P1_def P2_def P3_def tk)
  moreover have "take (N - 1) (P1 N ?s') = take (N - 1) (P1 N s)"
    using take_outer_D [OF assms(2,3)] by (simp add: P1_def min_def)
  moreover have "P1 N ?s' ! (N - 1) = P1 N s ! 0"
    using windows_outer_D(1) [OF assms(2,3)] assms(3) by (simp add: P1_def)
  moreover have "P2 N ?s' = tl (take (N - 1) (P1 N s)) @ [int N - 1]"
    "P3 N ?s' = take (N - 1) (P1 N s)"
    using windows_outer_D(2,3) [OF assms(2,3)] by (simp_all add: P1_def P2_def P3_def tk)
  ultimately show ?thesis
    using b by blast
qed

subsection \<open>The base permutation and the mirror windows\<close>

text \<open>
  Claim C5, as stated, fails inside an iteration: the first step of the burst stores
  \<open>P2[0]\<close>, a copy of \<open>P1[0]\<close>, into \<open>P1\<close>'s last slot (\<^verbatim>\<open>Circle_D[lastIndex + 0]\<close>), and
  only line 113, the last statement of the iteration, writes the label \<open>N - 1\<close> back. For
  \<open>N = 3\<close> the first window right after the first burst is \<open>(0, 1, 0)\<close>: the label 0
  twice, the label 2 missing.
\<close>

theorem P1_not_permutation_after_burst:
  "\<exists>s. advance_outer c_policy 3 (init 3) = Some s \<and> P1 3 s = [0, 1, 0]
       \<and> \<not> distinct (P1 3 s) \<and> 2 \<notin> set (P1 3 s)"
proof -
  have e: "outer_D 3 (Circle_D (init 3)) = [0, 1, 0, 1, 2, 0, 1, 0, 0]"
    by code_simp
  have "advance_outer c_policy 3 (init 3) =
          Some ((init 3)\<lparr>total_perms := total_perms (init 3) + of_nat (3 * (3 - 1)),
                  Circle_D := outer_D 3 (Circle_D (init 3))\<rparr>)"
    by (rule advance_outer_Some [OF admits_c_policy]) (simp_all add: length_init_D)
  then show ?thesis
    by (simp add: e P1_def)
qed

text \<open>
  Claim C5, amended. At every loop head of the run (the start of every outer iteration,
  and the exit), \<open>P1\<close> is a permutation of \<open>0, ..., N - 1\<close>: each label exactly once. It
  is not one at every point in between: the burst run from a loop head returns, leaves
  the first \<open>N - 1\<close> elements of \<open>P1\<close> as they were and a copy of \<open>P1[0]\<close> in the last
  slot, so that right after the burst the label of \<open>P1[0]\<close> is in \<open>P1\<close> twice and the
  label \<open>N - 1\<close> not at all.
\<close>

theorem P1_permutation_at_loop_heads:
  assumes "3 \<le> N" and "head c_policy N k = Some s"
  shows "length (P1 N s) = N \<and> mset (P1 N s) = mset (map int [0..<N])
       \<and> distinct (P1 N s) \<and> set (P1 N s) = int ` {0..<N}
       \<and> (\<exists>s'. advance_outer c_policy N s = Some s'
              \<and> length (P1 N s') = N
              \<and> take (N - 1) (P1 N s') = take (N - 1) (P1 N s)
              \<and> P1 N s' ! (N - 1) = P1 N s ! 0
              \<and> P1 N s' ! 0 = P1 N s ! 0
              \<and> \<not> distinct (P1 N s') \<and> int N - 1 \<notin> set (P1 N s'))"
proof -
  let ?D = "Circle_D s"
  have hi: "head_inv N k s"
    by (rule head_Some(3) [OF admits_c_policy assms])
  have lD: "length ?D = 3 * N"
    by (rule head_inv_D [OF hi])
  have n: "Suc (N - 1) = N" "N - 1 < length ?D"
    using assms(1) lD by simp_all
  have mt: "mset (take (N - 1) ?D) = mset (map int [0..<N - 1])"
    using hi by (simp add: head_inv_def)
  have "take (Suc (N - 1)) ?D = take (N - 1) ?D @ [?D ! (N - 1)]"
    using n(2) by (rule take_Suc_conv_app_nth)
  then have "mset (take N ?D) = mset (map int [0..<N - 1]) + {#int (N - 1)#}"
    using hi assms(1) by (simp add: n(1) head_inv_def of_nat_diff)
  also have "\<dots> = mset (map int ([0..<N - 1] @ [N - 1]))"
    by simp
  also have "[0..<N - 1] @ [N - 1] = [0..<N]"
    using n(1) by (metis upt_Suc_append zero_le)
  finally have m: "mset (P1 N s) = mset (map int [0..<N])"
    by (simp add: P1_def)
  have d: "distinct (map int [0..<N])"
    by (simp add: distinct_map)
  have "distinct (P1 N s)"
    using m d by (metis mset_eq_imp_distinct_iff)
  moreover have "set (P1 N s) = int ` {0..<N}"
    using m by (metis atLeastLessThan_upt list.set_map mset_eq_setD)
  moreover have "length (P1 N s) = N"
    using lD by (simp add: P1_def)
  moreover have "\<exists>s'. advance_outer c_policy N s = Some s'
              \<and> length (P1 N s') = N
              \<and> take (N - 1) (P1 N s') = take (N - 1) (P1 N s)
              \<and> P1 N s' ! (N - 1) = P1 N s ! 0
              \<and> P1 N s' ! 0 = P1 N s ! 0
              \<and> \<not> distinct (P1 N s') \<and> int N - 1 \<notin> set (P1 N s')"
  proof -
    let ?s' = "s\<lparr>total_perms := total_perms s + of_nat (N * (N - 1)),
                  Circle_D := outer_D N ?D\<rparr>"
    have N1: "1 \<le> N" and N2: "2 \<le> N"
      using assms(1) by simp_all
    have ao: "advance_outer c_policy N s = Some ?s'"
      by (rule advance_outer_Some [OF admits_c_policy lD N1])
    have lo: "length (outer_D N ?D) = 3 * N"
      using lD N1 by (rule length_outer_D)
    have l': "length (P1 N ?s') = N"
      using lo by (simp add: P1_def)
    have tk: "take (N - 1) (P1 N ?s') = take (N - 1) (P1 N s)"
      using take_outer_D [OF lD N2] by (simp add: P1_def min_def)
    have la: "P1 N ?s' ! (N - 1) = P1 N s ! 0"
      using windows_outer_D(1) [OF lD N2] assms(1) by (simp add: P1_def)
    have "P1 N ?s' ! 0 = take (N - 1) (P1 N ?s') ! 0"
      using assms(1) by simp
    also have "\<dots> = P1 N s ! 0"
      unfolding tk using assms(1) by simp
    finally have fi: "P1 N ?s' ! 0 = P1 N s ! 0" .
    have nd: "\<not> distinct (P1 N ?s')"
    proof
      assume "distinct (P1 N ?s')"
      moreover have "0 < length (P1 N ?s')" "N - 1 < length (P1 N ?s')"
        using l' assms(1) by simp_all
      ultimately have "(P1 N ?s' ! 0 = P1 N ?s' ! (N - 1)) = (0 = N - 1)"
        by (rule nth_eq_iff_index_eq)
      then show False
        using fi la assms(1) by simp
    qed
    have "take (Suc (N - 1)) (P1 N ?s') = take (N - 1) (P1 N ?s') @ [P1 N ?s' ! (N - 1)]"
      by (rule take_Suc_conv_app_nth) (use l' assms(1) in simp)
    then have sp: "P1 N ?s' = take (N - 1) (P1 N s) @ [P1 N s ! 0]"
      using l' by (simp only: n(1) tk la take_all [OF eq_imp_le])
    have st: "set (take (N - 1) (P1 N s)) = int ` {0..<N - 1}"
    proof -
      have "take (N - 1) (P1 N s) = take (N - 1) ?D"
        by (simp add: P1_def min_def)
      then show ?thesis
        using mt by (metis atLeastLessThan_upt list.set_map mset_eq_setD)
    qed
    have "P1 N s ! 0 = take (N - 1) (P1 N s) ! 0"
      using assms(1) by simp
    moreover have "0 < length (take (N - 1) (P1 N s))"
      using lD assms(1) by (simp add: P1_def)
    ultimately have "P1 N s ! 0 \<in> set (take (N - 1) (P1 N s))"
      by (metis nth_mem)
    then have "set (P1 N ?s') = int ` {0..<N - 1}"
      using sp st by auto
    moreover have "int N - 1 \<notin> int ` {0..<N - 1}"
      by auto
    ultimately have ns: "int N - 1 \<notin> set (P1 N ?s')"
      by simp
    show ?thesis
      using ao l' tk la fi nd ns by blast
  qed
  ultimately show ?thesis
    using m by simp
qed

theorem P1_permutation_at_loop_heads_witness:
  "head c_policy 5 3 = Some ((next_state 5 ^^ 3) (init 5))
   \<and> mset (P1 5 ((next_state 5 ^^ 3) (init 5))) = mset [0, 1, 2, 3, 4]
   \<and> distinct (P1 5 ((next_state 5 ^^ 3) (init 5)))"
proof -
  have h: "head c_policy 5 3 = Some ((next_state 5 ^^ 3) (init 5))"
    by (rule head_cases(1) [OF admits_c_policy]) (simp_all add: fact_numeral)
  show ?thesis
    using P1_permutation_at_loop_heads [OF _ h] h by (simp add: upt_rec numeral_eq_Suc)
qed

text \<open>
  Claim C7, as stated, fails. The windows mirror \<open>P1\<close> only right after the two copies:
  every burst step overwrites an element of \<open>P2\<close>, and the base advance then changes
  \<open>P1\<close>, so at entry to the next outer iteration neither window is a copy of \<open>P1\<close>'s
  first \<open>N - 1\<close> elements. For \<open>N = 4\<close>, at the second loop head: \<open>P1 = (1, 0, 2, 3)\<close>,
  \<open>P2 = (1, 2, 3)\<close>, \<open>P3 = (0, 1, 2)\<close>.
\<close>

theorem mirror_broken_at_next_head:
  "\<exists>s. head c_policy 4 1 = Some s \<and> P1 4 s = [1, 0, 2, 3] \<and> P2 4 s = [1, 2, 3]
       \<and> P3 4 s = [0, 1, 2] \<and> P2 4 s \<noteq> take 3 (P1 4 s) \<and> P3 4 s \<noteq> take 3 (P1 4 s)"
proof -
  have e: "next_state 4 (init 4) =
             \<lparr>Circle_D = [1, 0, 2, 3, 1, 2, 3, 0, 1, 2, 0, 0], C_PP = [0, 1, 0, 0],
              total_perms = 12\<rparr>"
    by code_simp
  have "head c_policy 4 1 = Some ((next_state 4 ^^ 1) (init 4))"
    by (rule head_cases(1) [OF admits_c_policy]) (simp_all add: fact_numeral)
  then show ?thesis
    by (simp add: e P1_def P2_def P3_def)
qed

text \<open>
  Claim C7, amended. On every buffer of the declared size (\<open>N \<ge> 2\<close>) the two copies at the
  start of an outer iteration return and make \<open>P2\<close> and \<open>P3\<close> exact copies of the first
  \<open>N - 1\<close> elements of \<open>P1\<close>, which they leave unchanged. The burst that follows keeps
  those \<open>N - 1\<close> elements of \<open>P1\<close> and the whole of \<open>P3\<close>, so \<open>P3\<close> still mirrors them after
  the burst; \<open>P2\<close> it overwrites: after the burst \<open>P2\<close> is \<open>P1[1], ..., P1[N - 2]\<close> followed
  by the label \<open>N - 1\<close>.
\<close>

theorem mirror_after_sync:
  assumes "length (Circle_D s) = 3 * N" and "2 \<le> N"
  shows "\<exists>s2 s3 s'. sync_P2 c_policy N s = Some s2 \<and> sync_P3 c_policy N s2 = Some s3
            \<and> burst c_policy N 0 s3 = Some s' \<and> advance_outer c_policy N s = Some s'
            \<and> P1 N s3 = P1 N s \<and> P2 N s3 = take (N - 1) (P1 N s) \<and> P3 N s3 = take (N - 1) (P1 N s)
            \<and> take (N - 1) (P1 N s') = take (N - 1) (P1 N s)
            \<and> P1 N s' ! (N - 1) = P1 N s ! 0
            \<and> P2 N s' = tl (take (N - 1) (P1 N s)) @ [int N - 1]
            \<and> P3 N s' = take (N - 1) (P1 N s)"
  by (rule windows_after_outer [OF admits_c_policy assms])

theorem mirror_after_sync_witness:
  "length (Circle_D (init 3)) = 3 * 3 \<and> (2 :: nat) \<le> 3
   \<and> (\<exists>s2 s3 s'. sync_P2 c_policy 3 (init 3) = Some s2 \<and> sync_P3 c_policy 3 s2 = Some s3
          \<and> burst c_policy 3 0 s3 = Some s'
          \<and> P2 3 s3 = [0, 1] \<and> P3 3 s3 = [0, 1] \<and> P2 3 s' = [1, 2] \<and> P3 3 s' = [0, 1])"
proof -
  have l: "length (Circle_D (init 3)) = 3 * 3"
    by (simp add: length_init_D)
  have p: "P1 3 (init 3) = [0, 1, 2]"
    by (simp add: P1_def init_D upt_rec numeral_eq_Suc)
  show ?thesis
    using mirror_after_sync [OF l] l by (auto simp: p)
qed

subsection \<open>The program without the second copy\<close>

lemma next_state_noP3_pp:
  assumes "3 \<le> N" "length (Circle_D t) = 3 * N" "length (C_PP t) = N"
    "\<forall>j<N. 0 \<le> C_PP t ! j \<and> C_PP t ! j \<le> int j"
  shows "(C_PP (next_state_noP3 N t), take N (Circle_D (next_state_noP3 N t)))
           = spec_advance_base N (C_PP t) (take N (Circle_D t))"
    and "length (Circle_D (next_state_noP3 N t)) = 3 * N"
    and "total_perms (next_state_noP3 N t) = total_perms t + of_nat (N * (N - 1))"
proof -
  let ?D = "Circle_D t" and ?v = "int N - 1"
  let ?D1 = "outer2_D N ?D"
  have N1: "1 \<le> N" "2 \<le> N" using assms(1) by simp_all
  have lD1: "length ?D1 = 3 * N"
    using assms(2) N1(1) by (rule length_outer2_D)
  obtain C' f where r: "spec_advance_base N (C_PP t) (take N ?D) = (C', (f (take N ?D))[N - 1 := ?v])
           \<and> (f = (\<lambda>P. P) \<or> (\<exists>i t. i \<le> N - 3 \<and> t < i \<and> f = (\<lambda>P. swap_list P i t)))
           \<and> digits_ok N C' \<and> cval C' (N - 2) = cval (C_PP t) (N - 2) + 1
           \<and> next_state N t =
               t\<lparr>total_perms := total_perms t + of_nat (N * (N - 1)), C_PP := C',
                 Circle_D := (f (take N (outer_D N ?D)))[N - 1 := ?v] @ drop N (outer_D N ?D)\<rparr>
           \<and> next_state_noP3 N t =
               t\<lparr>total_perms := total_perms t + of_nat (N * (N - 1)), C_PP := C',
                 Circle_D := (f (take N ?D1))[N - 1 := ?v] @ drop N ?D1\<rparr>"
    using next_state_props [OF assms] by (elim exE) (rule that)
  have sh: "f = (\<lambda>P. P) \<or> (\<exists>i t. i \<le> N - 3 \<and> t < i \<and> f = (\<lambda>P. swap_list P i t))"
    and r1: "spec_advance_base N (C_PP t) (take N ?D) = (C', (f (take N ?D))[N - 1 := ?v])"
    and ns: "next_state_noP3 N t =
               t\<lparr>total_perms := total_perms t + of_nat (N * (N - 1)), C_PP := C',
                 Circle_D := (f (take N ?D1))[N - 1 := ?v] @ drop N ?D1\<rparr>"
    using r by blast+
  let ?W = "(f (take N ?D1))[N - 1 := ?v]"
  have lt: "length (take N ?D1) = N" "length (take N ?D) = N"
    using assms(2) lD1 by simp_all
  have lW: "length ?W = N"
    using shape_take(1) [OF sh assms(1) lt(1)] by simp
  have D': "Circle_D (next_state_noP3 N t) = ?W @ drop N ?D1"
    and C': "C_PP (next_state_noP3 N t) = C'"
    by (simp_all add: ns)
  have tk: "take (N - 1) (take N ?D1) = take (N - 1) (take N ?D)"
    using take_outer2_D [OF assms(2) N1(2)] by (simp add: min_def)
  have W: "?W = (f (take N ?D))[N - 1 := ?v]"
    by (rule shape_cong [OF sh assms(1) lt tk])
  have takeN: "take N (Circle_D (next_state_noP3 N t)) = ?W"
    using lW by (simp add: D')
  have "spec_advance_base N (C_PP t) (take N ?D) = (C', ?W)"
    using r1 W by simp
  then show "(C_PP (next_state_noP3 N t), take N (Circle_D (next_state_noP3 N t)))
           = spec_advance_base N (C_PP t) (take N (Circle_D t))"
    by (simp only: takeN C')
  show "length (Circle_D (next_state_noP3 N t)) = 3 * N"
    using lW lD1 by (simp add: D')
  show "total_perms (next_state_noP3 N t) = total_perms t + of_nat (N * (N - 1))"
    by (simp add: ns)
qed

lemma heads_noP3:
  assumes "admits A N" "3 \<le> N"
  shows "head_inv N k s \<Longrightarrow> k + m \<le> fact (N - 2) \<Longrightarrow> length (Circle_D t) = 3 * N
     \<Longrightarrow> C_PP t = C_PP s \<Longrightarrow> total_perms t = total_perms s
     \<Longrightarrow> take N (Circle_D t) = take N (Circle_D s)
     \<Longrightarrow> \<exists>t'. loop_head A (body_noP3 A N) m t = Some t' \<and> length (Circle_D t') = 3 * N
           \<and> C_PP t' = C_PP ((next_state N ^^ m) s)
           \<and> total_perms t' = total_perms ((next_state N ^^ m) s)
           \<and> take N (Circle_D t') = take N (Circle_D ((next_state N ^^ m) s))"
proof (induction m arbitrary: k s t)
  case 0
  then show ?case by simp
next
  case (Suc m)
  have dg: "digits_ok N (C_PP s)"
    using Suc.prems(1) by (simp add: head_inv_def)
  have "int k < fact (N - 2)"
    using Suc.prems(2) by (metis Suc_le_lessD add_Suc_right le_add1 le_less_trans of_nat_fact of_nat_less_iff)
  then have test: "C_PP s ! 0 < 1"
    using test_iff_cval [OF assms(2) dg] Suc.prems(1) by (simp add: head_inv_def)
  have bd: "\<forall>j<N. 0 \<le> C_PP t ! j \<and> C_PP t ! j \<le> int j"
    unfolding Suc.prems(4) using dg test assms(2) by (rule digits_ok_test)
  have lC: "length (C_PP t) = N"
    unfolding Suc.prems(4) using Suc.prems(1) by (rule head_inv_C)
  have rd: "rdC A Loop_test 0 t = Some (C_PP t ! 0)"
    by (rule rdC_test [OF assms(1) lC assms(2)])
  have b: "body_noP3 A N t = Some (next_state_noP3 N t)"
    by (rule body_noP3_Some [OF assms Suc.prems(3) lC]) (use bd in auto)
  have st: "head_inv N (Suc k) (next_state N s)"
    "(C_PP (next_state N s), take N (Circle_D (next_state N s)))
           = spec_advance_base N (C_PP s) (take N (Circle_D s))"
    using head_inv_step [OF assms(2) Suc.prems(1) test] by blast+
  have tt: "(C_PP (next_state_noP3 N t), take N (Circle_D (next_state_noP3 N t)))
           = spec_advance_base N (C_PP t) (take N (Circle_D t))"
    "length (Circle_D (next_state_noP3 N t)) = 3 * N"
    "total_perms (next_state_noP3 N t) = total_perms t + of_nat (N * (N - 1))"
    using next_state_noP3_pp [OF assms(2) Suc.prems(3) lC bd] by blast+
  have eq: "C_PP (next_state_noP3 N t) = C_PP (next_state N s)"
    "take N (Circle_D (next_state_noP3 N t)) = take N (Circle_D (next_state N s))"
    using st(2) tt(1) Suc.prems(4,6) by (metis fst_conv, metis snd_conv)
  have "total_perms (next_state N s) = of_nat (Suc k * (N * (N - 1)))"
    "total_perms s = of_nat (k * (N * (N - 1)))"
    using st(1) Suc.prems(1) by (simp_all add: head_inv_def)
  then have tot: "total_perms (next_state_noP3 N t) = total_perms (next_state N s)"
    using tt(3) Suc.prems(5) by simp
  have "\<exists>t'. loop_head A (body_noP3 A N) m (next_state_noP3 N t) = Some t'
           \<and> length (Circle_D t') = 3 * N
           \<and> C_PP t' = C_PP ((next_state N ^^ m) (next_state N s))
           \<and> total_perms t' = total_perms ((next_state N ^^ m) (next_state N s))
           \<and> take N (Circle_D t') = take N (Circle_D ((next_state N ^^ m) (next_state N s)))"
    by (rule Suc.IH [OF st(1) _ tt(2) eq(1) tot eq(2)]) (use Suc.prems(2) in simp)
  moreover have "(next_state N ^^ Suc m) s = (next_state N ^^ m) (next_state N s)"
    by (simp add: funpow_swap1)
  moreover have "loop_head A (body_noP3 A N) (Suc m) t
                   = loop_head A (body_noP3 A N) m (next_state_noP3 N t)"
    using rd test b Suc.prems(4) by simp
  ultimately show ?case
    by simp
qed

lemma run_noP3_result:
  assumes "admits A N" "3 \<le> N"
  shows "\<exists>t. run_noP3 A N = Some t
           \<and> total_perms t = total_perms ((next_state N ^^ fact (N - 2)) (init N))
           \<and> P1 N t = P1 N ((next_state N ^^ fact (N - 2)) (init N))
           \<and> C_PP t = C_PP ((next_state N ^^ fact (N - 2)) (init N))"
proof -
  let ?F = "fact (N - 2) :: nat"
  let ?s = "(next_state N ^^ ?F) (init N)"
  obtain t where t: "loop_head A (body_noP3 A N) ?F (init N) = Some t"
    "C_PP t = C_PP ?s" "total_perms t = total_perms ?s"
    "take N (Circle_D t) = take N (Circle_D ?s)"
    using heads_noP3 [OF assms head_inv_init [OF assms(2)], of ?F "init N"]
    by (auto simp: length_init_D)
  have lC: "length (C_PP t) = N"
    using t(2) head_inv_C [OF run_result(3) [OF assms]] by simp
  have "rdC A Loop_test 0 t = Some 1"
    using rdC_test [OF assms(1) lC assms(2)] t(2) run_result(4) [OF assms] by simp
  then have "while_loop A (body_noP3 A N) t = Some t"
    by (subst while_loop.simps) simp
  then have "run_noP3 A N = Some t"
    using while_loop_head [OF t(1)] by (simp add: run_noP3_def)
  then show ?thesis
    using t(2-4) by (simp add: P1_def)
qed

text \<open>
  Claim C10. For every \<open>N \<ge> 3\<close> the program without the second \<^verbatim>\<open>memcpy\<close> returns, as the
  original does, and with the same \<^verbatim>\<open>total_perms\<close>, the same \<open>P1\<close> and the same \<^verbatim>\<open>C_PP\<close>.
  Both also return under the policy \<open>tight N\<close>, which admits no site but the second
  copy's destination at the indices of the trailing window: nothing reads \<open>P3\<close>.
\<close>

theorem P3_copy_is_dead:
  assumes "3 \<le> N"
  shows "\<exists>s t. run c_policy N = Some s \<and> run_noP3 c_policy N = Some t
           \<and> total_perms t = total_perms s \<and> P1 N t = P1 N s \<and> C_PP t = C_PP s
           \<and> run (tight N) N = Some s \<and> run_noP3 (tight N) N \<noteq> None"
proof -
  let ?s = "(next_state N ^^ fact (N - 2)) (init N)"
  have "run c_policy N = Some ?s" "run (tight N) N = Some ?s"
    using run_result(2) [OF admits_c_policy assms] run_result(2) [OF admits_tight assms]
    by simp_all
  moreover have "run_noP3 (tight N) N \<noteq> None"
    using run_noP3_result [OF admits_tight assms] by auto
  ultimately show ?thesis
    using run_noP3_result [OF admits_c_policy assms] by auto
qed

theorem P3_copy_is_dead_witness:
  "(3 :: nat) \<le> 14
   \<and> (\<exists>s t. run c_policy 14 = Some s \<and> run_noP3 c_policy 14 = Some t
           \<and> total_perms t = total_perms s \<and> P1 14 t = P1 14 s \<and> C_PP t = C_PP s)"
  using P3_copy_is_dead [of 14] by auto

subsection \<open>The base permutations of the run are not all different\<close>

text \<open>
  The outer loop is meant to visit \<open>(N - 2)!\<close> different base permutations, one for each
  value of the counter. It does so for \<open>N \<le> 5\<close> only. The carry loop's swap always has
  \<open>target = i\<close> (lemma \<open>spec_carry_props\<close>), so it never moves an element, and the one swap
  per turn that remains does not enumerate the permutations: for \<open>N = 6\<close> the 24 turns
  start from only 20 different base permutations, the turns 3 and 9 both from
  \<open>(3, 0, 1, 2, 4, 5)\<close>.
\<close>

lemma base_permutations_N6:
  "length (remdups (map (\<lambda>k. snd (pp_iter 6 k (replicate 6 0, map int [0..<6]))) [0..<24])) = 20"
  "snd (pp_iter 6 3 (replicate 6 0, map int [0..<6])) = [3, 0, 1, 2, 4, 5]"
  "snd (pp_iter 6 9 (replicate 6 0, map int [0..<6])) = [3, 0, 1, 2, 4, 5]"
  by code_simp+

lemma pp_iter_14_9093:
  "pp_iter 14 9093 (replicate 14 0, map int [0..<14]) =
     ([0, 0, 0, 0, 0, 0, 0, 0, 6, 8, 9, 9, 0, 0], [0, 8, 4, 1, 10, 9, 7, 2, 6, 11, 3, 5, 12, 13])"
  by code_simp

lemma pp_iter_14_154:
  "pp_iter 14 154
     ([0, 0, 0, 0, 0, 0, 0, 0, 6, 8, 9, 9, 0, 0], [0, 8, 4, 1, 10, 9, 7, 2, 6, 11, 3, 5, 12, 13]) =
     ([0, 0, 0, 0, 0, 0, 0, 0, 7, 0, 0, 7, 0, 0], [0, 8, 4, 1, 10, 9, 7, 2, 6, 11, 3, 5, 12, 13])"
  by code_simp

lemma pp_iter_14_9247:
  "pp_iter 14 9247 (replicate 14 0, map int [0..<14]) =
     ([0, 0, 0, 0, 0, 0, 0, 0, 7, 0, 0, 7, 0, 0], [0, 8, 4, 1, 10, 9, 7, 2, 6, 11, 3, 5, 12, 13])"
  using pp_iter_add [of 14 9093 154 "(replicate 14 0, map int [0..<14])"]
  by (simp only: pp_iter_14_9093 pp_iter_14_154) simp

text \<open>
  Claim C1 at the source's own \<open>N = 14\<close>. The run returns with \<^verbatim>\<open>total_perms\<close> equal to
  \<open>14! = 87178291200\<close>, but the permutations it stands for are not all different: the
  outer iterations 9093 and 9247 (both real iterations: the loop test passes) start
  from the same base permutation \<open>P1\<close>, so their bursts work on the same windows and go
  through the same arrangements a second time.
\<close>

theorem base_permutation_repeats:
  "\<exists>s1 s2 t1 t2 sf.
      head c_policy 14 9093 = Some s1 \<and> head c_policy 14 9247 = Some s2
    \<and> C_PP s1 ! 0 < 1 \<and> C_PP s2 ! 0 < 1
    \<and> P1 14 s1 = [0, 8, 4, 1, 10, 9, 7, 2, 6, 11, 3, 5, 12, 13] \<and> P1 14 s2 = P1 14 s1
    \<and> advance_outer c_policy 14 s1 = Some t1 \<and> advance_outer c_policy 14 s2 = Some t2
    \<and> take 13 (P1 14 t1) = take 13 (P1 14 t2) \<and> P1 14 t1 ! 13 = P1 14 t2 ! 13
    \<and> P2 14 t1 = P2 14 t2 \<and> P3 14 t1 = P3 14 t2
    \<and> run c_policy 14 = Some sf \<and> total_perms sf = 87178291200"
proof -
  note A = admits_c_policy [of 14]
  have N: "(3 :: nat) \<le> 14" by simp
  let ?s1 = "(next_state 14 ^^ 9093) (init 14)" and ?s2 = "(next_state 14 ^^ 9247) (init 14)"
  have h1: "head c_policy 14 9093 = Some ?s1" and h2: "head c_policy 14 9247 = Some ?s2"
    by (rule head_cases(1) [OF A N], simp add: fact_numeral)+
  have p1: "(C_PP ?s1, P1 14 ?s1) = pp_iter 14 9093 (replicate 14 0, map int [0..<14])"
    and p2: "(C_PP ?s2, P1 14 ?s2) = pp_iter 14 9247 (replicate 14 0, map int [0..<14])"
    by (rule head_cases(3) [OF A N], simp add: fact_numeral)+
  have c1: "C_PP ?s1 = [0, 0, 0, 0, 0, 0, 0, 0, 6, 8, 9, 9, 0, 0]"
    and q1: "P1 14 ?s1 = [0, 8, 4, 1, 10, 9, 7, 2, 6, 11, 3, 5, 12, 13]"
    using p1 unfolding pp_iter_14_9093 by simp_all
  have c2: "C_PP ?s2 = [0, 0, 0, 0, 0, 0, 0, 0, 7, 0, 0, 7, 0, 0]"
    and q2: "P1 14 ?s2 = [0, 8, 4, 1, 10, 9, 7, 2, 6, 11, 3, 5, 12, 13]"
    using p2 unfolding pp_iter_14_9247 by simp_all
  have l1: "length (Circle_D ?s1) = 3 * 14" and l2: "length (Circle_D ?s2) = 3 * 14"
    by (rule head_inv_D [OF head_Some(3) [OF A N h1]], rule head_inv_D [OF head_Some(3) [OF A N h2]])
  obtain t1 where t1: "advance_outer c_policy 14 ?s1 = Some t1"
    "take (14 - 1) (P1 14 t1) = take (14 - 1) (P1 14 ?s1)" "P1 14 t1 ! (14 - 1) = P1 14 ?s1 ! 0"
    "P2 14 t1 = tl (take (14 - 1) (P1 14 ?s1)) @ [int 14 - 1]" "P3 14 t1 = take (14 - 1) (P1 14 ?s1)"
    using windows_after_outer [OF A l1] by auto
  obtain t2 where t2: "advance_outer c_policy 14 ?s2 = Some t2"
    "take (14 - 1) (P1 14 t2) = take (14 - 1) (P1 14 ?s2)" "P1 14 t2 ! (14 - 1) = P1 14 ?s2 ! 0"
    "P2 14 t2 = tl (take (14 - 1) (P1 14 ?s2)) @ [int 14 - 1]" "P3 14 t2 = take (14 - 1) (P1 14 ?s2)"
    using windows_after_outer [OF A l2] by auto
  obtain sf where sf: "run c_policy 14 = Some sf" "total_perms sf = of_nat (fact 14)"
    using run_count [OF A N] by auto
  have "(of_nat (fact 14) :: 64 word) = 87178291200"
    by (simp add: fact_numeral)
  then have tot: "total_perms sf = 87178291200"
    using sf(2) by simp
  have w: "take 13 (P1 14 t1) = take 13 (P1 14 t2)" "P1 14 t1 ! 13 = P1 14 t2 ! 13"
    "P2 14 t1 = P2 14 t2" "P3 14 t1 = P3 14 t2"
    using t1(2-5) t2(2-5) by (simp_all add: q1 q2)
  show ?thesis
    using h1 h2 q1 q2 t1(1) t2(1) w sf(1) tot by (simp add: c1 c2)
qed

end
